theory Spec2Isabelle
  imports Complex_Main
begin

section \<open>Host-language values: strings, numbers, arrays\<close>

text \<open>
  The program is a Node.js script. A Buffer is a list of bytes; a string is a list of
  characters (the file names the program generates and parses are ASCII).
\<close>

type_synonym bytes = string

text \<open>
  The numbers the program reads back from file names are the results of
  \<^verbatim>\<open>parseInt\<close>: NaN, an integer-valued double, or an infinity. Negative zero is
  identified with zero (a \<^verbatim>\<open>Map\<close> does the same with its keys).
\<close>

datatype number = NaN | Num int | PosInfinity | NegInfinity

text \<open>
  Rounding of a natural number to the nearest double (53 significant bits, ties to even).
  \<open>bitlen n\<close> is the number of binary digits of \<open>n\<close>.
\<close>

fun bitlen :: "nat \<Rightarrow> nat" where
  "bitlen n = (if n = 0 then 0 else Suc (bitlen (n div 2)))"

declare bitlen.simps [simp del]

definition round_double :: "nat \<Rightarrow> nat" where
  "round_double n =
     (let b = bitlen n in
      if b \<le> 53 then n
      else
        let e = b - 53; q = n div 2 ^ e; r = n mod 2 ^ e; h = 2 ^ (e - 1)
        in (if h < r \<or> (r = h \<and> odd q) then q + 1 else q) * 2 ^ e)"

definition to_number :: "nat \<Rightarrow> number" where
  "to_number n = (let r = round_double n in if 2 ^ 1024 \<le> r then PosInfinity else Num (int r))"

fun negate :: "number \<Rightarrow> number" where
  "negate NaN = NaN"
| "negate (Num i) = Num (- i)"
| "negate PosInfinity = NegInfinity"
| "negate NegInfinity = PosInfinity"

subsection \<open>\<^verbatim>\<open>String.prototype.split\<close> with a one-character separator\<close>

fun split_on :: "char \<Rightarrow> string \<Rightarrow> string list" where
  "split_on sep [] = [[]]"
| "split_on sep (c # cs) =
     (if c = sep then [] # split_on sep cs
      else (case split_on sep cs of [] \<Rightarrow> [[c]] | w # ws \<Rightarrow> (c # w) # ws))"

subsection \<open>\<^verbatim>\<open>parseInt(string, 10)\<close>\<close>

definition is_white_space :: "char \<Rightarrow> bool" where
  "is_white_space c = ((of_char c :: nat) \<in> {9, 10, 11, 12, 13, 32})"

definition is_digit :: "char \<Rightarrow> bool" where
  "is_digit c = (48 \<le> (of_char c :: nat) \<and> (of_char c :: nat) \<le> 57)"

definition digit_value :: "char \<Rightarrow> nat" where
  "digit_value c = of_char c - 48"

definition digits_value :: "string \<Rightarrow> nat" where
  "digits_value Z = foldl (\<lambda>acc c. 10 * acc + digit_value c) 0 Z"

text \<open>
  ECMAScript \<^verbatim>\<open>parseInt\<close> at radix 10: leading white space is dropped, one sign is
  read, the longest prefix of decimal digits is taken; no digit gives NaN; otherwise the
  mathematical value is rounded to a double and the sign applied.
\<close>

definition parseInt :: "string \<Rightarrow> number" where
  "parseInt inputString =
     (let S = dropWhile is_white_space inputString;
          minus = (case S of [] \<Rightarrow> False | c # _ \<Rightarrow> c = CHR ''-'');
          S' = (case S of [] \<Rightarrow> [] | c # r \<Rightarrow> if c = CHR ''+'' \<or> c = CHR ''-'' then r else S);
          Z = takeWhile is_digit S'
      in if Z = [] then NaN
         else if minus then negate (to_number (digits_value Z))
         else to_number (digits_value Z))"

subsection \<open>Arrays on a heap\<close>

text \<open>
  JavaScript arrays are mutable objects passed by reference. The directory listing that
  \<^verbatim>\<open>runAllComparisons\<close> hands to every call of \<^verbatim>\<open>compare\<close> is one shared array, so
  arrays of file names live in an explicit heap: a reference is an index into the list
  of allocated arrays, allocation appends.
\<close>

type_synonym ref = nat
type_synonym heap = "string list list"

definition alloc :: "string list \<Rightarrow> heap \<Rightarrow> ref \<times> heap" where
  "alloc arr h = (length h, h @ [arr])"

fun indexOf :: "'a list \<Rightarrow> 'a \<Rightarrow> int" where
  "indexOf [] x = - 1"
| "indexOf (y # ys) x =
     (if y = x then 0 else (let i = indexOf ys x in if i = - 1 then - 1 else i + 1))"

text \<open>\<^verbatim>\<open>toSpliced(start, deleteCount)\<close> returns a copy; the receiver is not changed.\<close>

definition toSpliced :: "'a list \<Rightarrow> nat \<Rightarrow> nat \<Rightarrow> 'a list" where
  "toSpliced xs start deleteCount = take start xs @ drop (start + deleteCount) xs"


subsection \<open>Number to string, as a template literal converts an integer-valued number\<close>

definition digit_char :: "nat \<Rightarrow> char" where
  "digit_char d = ''0123456789'' ! d"

fun digits :: "nat \<Rightarrow> string" where
  "digits n = (if n < 10 then [digit_char n] else digits (n div 10) @ [digit_char (n mod 10)])"

declare digits.simps [simp del]

text \<open>
  ECMAScript \<^verbatim>\<open>Number::toString\<close> prints the decimal number with the fewest
  significant digits that still rounds to the double \<open>x\<close>, and of those the one closest
  to \<open>x\<close> (the even one on a tie). With \<open>p\<close> the weight of the last digit kept,
  \<open>level_candidate x p\<close> tries the two neighbours of \<open>x\<close> that are multiples of \<open>p\<close>;
  \<open>shortest_from\<close> tries 1, 2, ... significant digits.
\<close>

definition level_candidate :: "nat \<Rightarrow> nat \<Rightarrow> nat option" where
  "level_candidate x p =
     (let lo = (x div p) * p; hi = lo + p;
          lo_first = (x - lo < hi - x \<or> (x - lo = hi - x \<and> even (x div p)));
          v1 = (if lo_first then lo else hi);
          v2 = (if lo_first then hi else lo)
      in if round_double v1 = x then Some v1
         else if round_double v2 = x then Some v2
         else None)"

function shortest_from :: "nat \<Rightarrow> nat \<Rightarrow> nat \<Rightarrow> nat" where
  "shortest_from x d k =
     (if d \<le> k then x
      else (case level_candidate x (10 ^ (d - k)) of
              Some v \<Rightarrow> v
            | None \<Rightarrow> shortest_from x d (Suc k)))"
  by pat_completeness auto

termination
  by (relation "measure (\<lambda>(x, d, k). d - k)") auto

declare shortest_from.simps [simp del]

definition shortest :: "nat \<Rightarrow> nat" where
  "shortest x = shortest_from x (length (digits x)) 1"

text \<open>
  Up to 21 integer digits the number is printed in plain decimal notation, beyond that
  in exponent notation (\<^verbatim>\<open>1e+21\<close>, \<^verbatim>\<open>1.5e+25\<close>).
\<close>

definition nat_to_string :: "nat \<Rightarrow> string" where
  "nat_to_string x =
     (let ds = digits (shortest x); n = length ds in
      if n \<le> 21 then ds
      else
        let sd = rev (dropWhile (\<lambda>c. c = CHR ''0'') (rev ds)); e = digits (n - 1)
        in if length sd = 1 then sd @ ''e+'' @ e
           else hd sd # ''.'' @ tl sd @ ''e+'' @ e)"

definition number_to_string :: "int \<Rightarrow> string" where
  "number_to_string x =
     (if x < 0 then CHR ''-'' # nat_to_string (nat (- x)) else nat_to_string (nat x))"

text \<open>An integer is a JavaScript number when rounding to a double leaves it unchanged.\<close>

definition is_double :: "int \<Rightarrow> bool" where
  "is_double x = (round_double (nat \<bar>x\<bar>) = nat \<bar>x\<bar> \<and> \<bar>x\<bar> < 2 ^ 1024)"

subsection \<open>JSON values\<close>

text \<open>
  The sizes argument is whatever \<^verbatim>\<open>JSON.parse\<close> returns. A JSON number is carried as
  an integer (numbers with a fractional part are not represented).
\<close>

datatype json =
    JNull | JBool bool | JNumber int | JString string
  | JArray "json list" | JObject "(string \<times> json) list"

fun join_with :: "string \<Rightarrow> string list \<Rightarrow> string" where
  "join_with sep [] = []"
| "join_with sep [s] = s"
| "join_with sep (s # t # ss) = s @ sep @ join_with sep (t # ss)"

text \<open>
  The string a template literal \<^verbatim>\<open>`${size}`\<close> produces. An array is joined with
  commas, \<^verbatim>\<open>null\<close> elements printing as the empty string; a plain object prints as
  \<^verbatim>\<open>[object Object]\<close>.
\<close>

fun template_string :: "json \<Rightarrow> string" where
  "template_string JNull = ''null''"
| "template_string (JBool b) = (if b then ''true'' else ''false'')"
| "template_string (JNumber x) = number_to_string x"
| "template_string (JString s) = s"
| "template_string (JArray xs) =
     join_with '','' (map (\<lambda>v. if v = JNull then [] else template_string v) xs)"
| "template_string (JObject kvs) = ''[object Object]''"

subsection \<open>Insertion-ordered association lists\<close>

text \<open>
  A JavaScript \<^verbatim>\<open>Map\<close> iterates in insertion order, and \<^verbatim>\<open>set\<close> on a present key keeps
  the key's position. The entries of a directory are kept the same way: writing an
  existing file replaces its content.
\<close>

fun assoc_set :: "'k \<Rightarrow> 'v \<Rightarrow> ('k \<times> 'v) list \<Rightarrow> ('k \<times> 'v) list" where
  "assoc_set k v [] = [(k, v)]"
| "assoc_set k v ((k', v') # ps) =
     (if k' = k then (k, v) # ps else (k', v') # assoc_set k v ps)"

section \<open>The file system\<close>

datatype error =
    ENOENT | ENOTDIR | EISDIR | EEXIST
  | CodecError
  | InsufficientArguments | SyntaxError | SizesNotNumbers

datatype node = File bytes | Dir "(string \<times> node) list"

text \<open>
  A path is the list of its components below the top directory; \<^verbatim>\<open>path.join(p, name)\<close>
  appends one. The file system is one tree: what is at the top (nothing, a file or a
  directory with its entries).
\<close>

type_synonym path = "string list"

type_synonym filesystem = "node option"

definition path_join :: "path \<Rightarrow> string \<Rightarrow> path" where
  "path_join p name = p @ [name]"

text \<open>
  Path resolution walks down the components: a missing component is \<^verbatim>\<open>ENOENT\<close>, a
  component below a regular file is \<^verbatim>\<open>ENOTDIR\<close>.
\<close>

fun lookup :: "filesystem \<Rightarrow> path \<Rightarrow> error + node" where
  "lookup None p = Inl ENOENT"
| "lookup (Some n) [] = Inr n"
| "lookup (Some (File b)) (c # cs) = Inl ENOTDIR"
| "lookup (Some (Dir es)) (c # cs) = lookup (map_of es c) cs"

definition absent :: "filesystem \<Rightarrow> path \<Rightarrow> bool" where
  "absent fs p = (case lookup fs p of Inl e \<Rightarrow> True | Inr n \<Rightarrow> False)"

definition is_dir :: "filesystem \<Rightarrow> path \<Rightarrow> bool" where
  "is_dir fs p = (case lookup fs p of Inr (Dir es) \<Rightarrow> True | _ \<Rightarrow> False)"

text \<open>
  Changing the tree at a path. \<open>alter_entry c f\<close> replaces what a directory has under
  the name \<open>c\<close> by what \<open>f\<close> makes of it (\<open>None\<close>: no entry). \<open>alter_at\<close> walks down to
  the path and applies \<open>f\<close> there; it leaves a tree alone where the path runs into a
  regular file, and where a component is missing unless \<open>create\<close> asks for the missing
  directories to be made.
\<close>

definition alter_entry ::
  "string \<Rightarrow> (node option \<Rightarrow> node option) \<Rightarrow> (string \<times> node) list \<Rightarrow> (string \<times> node) list" where
  "alter_entry c f es =
     (case f (map_of es c) of
        None \<Rightarrow> [e \<leftarrow> es. fst e \<noteq> c]
      | Some n \<Rightarrow> assoc_set c n es)"

fun alter_at :: "bool \<Rightarrow> path \<Rightarrow> (node option \<Rightarrow> node option) \<Rightarrow> filesystem \<Rightarrow> filesystem" where
  "alter_at create [] f t = f t"
| "alter_at create (c # cs) f (Some (Dir es)) =
     Some (Dir (alter_entry c (\<lambda>t. alter_at create cs f t) es))"
| "alter_at create (c # cs) f (Some (File b)) = Some (File b)"
| "alter_at create (c # cs) f None =
     (if create then Some (Dir (alter_entry c (\<lambda>t. alter_at create cs f t) [])) else None)"

text \<open>
  An asynchronous operation takes the file system and returns a value or the error it
  rejects with, and the file system it leaves. \<^verbatim>\<open>Promise.all(xs.map(f))\<close> is
  \<open>io_map\<close>: the tasks run in list order and the first rejection is the result. (The
  tasks of the source interleave; each writes a file of its own name, so the order of
  the writes does not change the directory they leave. After a rejection the remaining
  tasks of the source still run to their end, which the model leaves out: what they
  write is of the same kind as what the tasks before them wrote.)
\<close>

type_synonym 'a io = "filesystem \<Rightarrow> (error + 'a) \<times> filesystem"

definition io_return :: "'a \<Rightarrow> 'a io" where
  "io_return x = (\<lambda>fs. (Inr x, fs))"

definition io_throw :: "error \<Rightarrow> 'a io" where
  "io_throw e = (\<lambda>fs. (Inl e, fs))"

definition io_bind :: "'a io \<Rightarrow> ('a \<Rightarrow> 'b io) \<Rightarrow> 'b io" where
  "io_bind m f =
     (\<lambda>fs. case m fs of (Inl e, fs') \<Rightarrow> (Inl e, fs') | (Inr x, fs') \<Rightarrow> f x fs')"

fun io_map :: "('a \<Rightarrow> 'b io) \<Rightarrow> 'a list \<Rightarrow> 'b list io" where
  "io_map f [] = io_return []"
| "io_map f (x # xs) =
     io_bind (f x) (\<lambda>y. io_bind (io_map f xs) (\<lambda>ys. io_return (y # ys)))"

text \<open>
  \<^verbatim>\<open>try { body } finally { cleanup }\<close>: the cleanup runs whatever the body did; if the
  cleanup throws, its error replaces the body's outcome.
\<close>

definition try_finally :: "'a io \<Rightarrow> unit io \<Rightarrow> 'a io" where
  "try_finally body cleanup =
     (\<lambda>fs. case body fs of
        (r, fs') \<Rightarrow>
          (case cleanup fs' of
             (Inl e, fs'') \<Rightarrow> (Inl e, fs'')
           | (Inr _, fs'') \<Rightarrow> (r, fs'')))"

definition readdir :: "path \<Rightarrow> string list io" where
  "readdir p =
     (\<lambda>fs. case lookup fs p of
        Inl e \<Rightarrow> (Inl e, fs)
      | Inr (File _) \<Rightarrow> (Inl ENOTDIR, fs)
      | Inr (Dir es) \<Rightarrow> (Inr (map fst es), fs))"

definition access :: "path \<Rightarrow> unit io" where
  "access p = (\<lambda>fs. case lookup fs p of Inl e \<Rightarrow> (Inl e, fs) | Inr _ \<Rightarrow> (Inr (), fs))"

text \<open>
  \<^verbatim>\<open>fs.rm(path, { recursive, force })\<close>. The path is resolved first; \<^verbatim>\<open>force\<close> silences
  the error of a path that does not exist (\<^verbatim>\<open>ENOENT\<close>) and no other: a path below a
  regular file is rejected with \<^verbatim>\<open>ENOTDIR\<close>.
\<close>

definition rm :: "path \<Rightarrow> bool \<Rightarrow> bool \<Rightarrow> unit io" where
  "rm p recursive force =
     (\<lambda>fs. case lookup fs p of
        Inl e \<Rightarrow> (if e = ENOENT \<and> force then (Inr (), fs) else (Inl e, fs))
      | Inr (File _) \<Rightarrow> (Inr (), alter_at False p (\<lambda>_. None) fs)
      | Inr (Dir _) \<Rightarrow>
          (if recursive then (Inr (), alter_at False p (\<lambda>_. None) fs) else (Inl EISDIR, fs)))"

text \<open>
  \<^verbatim>\<open>fs.mkdir(path, { recursive: true })\<close>: an existing directory is kept, the missing
  directories on the way are made; a regular file at the path or on the way is an error.
\<close>

definition mkdir_recursive :: "path \<Rightarrow> unit io" where
  "mkdir_recursive p =
     (\<lambda>fs. case lookup fs p of
        Inl e \<Rightarrow>
          (if e = ENOENT then (Inr (), alter_at True p (\<lambda>_. Some (Dir [])) fs) else (Inl e, fs))
      | Inr (File _) \<Rightarrow> (Inl EEXIST, fs)
      | Inr (Dir _) \<Rightarrow> (Inr (), fs))"

text \<open>
  \<^verbatim>\<open>fs.writeFile(path, data)\<close>: an existing file is replaced; a new file needs its parent
  directory to exist.
\<close>

definition writeFile :: "path \<Rightarrow> bytes \<Rightarrow> unit io" where
  "writeFile p data =
     (\<lambda>fs. case lookup fs p of
        Inr (Dir _) \<Rightarrow> (Inl EISDIR, fs)
      | Inr (File _) \<Rightarrow> (Inr (), alter_at False p (\<lambda>_. Some (File data)) fs)
      | Inl e \<Rightarrow>
          (if e = ENOENT \<and> p \<noteq> [] \<and> is_dir fs (butlast p)
           then (Inr (), alter_at False p (\<lambda>_. Some (File data)) fs)
           else (Inl e, fs)))"

section \<open>Discovery\<close>

definition initImages :: "path \<Rightarrow> path list io" where
  "initImages basePath =
     io_bind (readdir basePath) (\<lambda>dirs.
     io_bind (io_map (\<lambda>dir.
                let dirPath = path_join basePath dir in
                io_bind (readdir dirPath) (\<lambda>images.
                io_return (map (\<lambda>img. path_join dirPath img) images))) dirs) (\<lambda>images.
     io_return (concat images)))"

section \<open>The downscale cache\<close>

text \<open>
  \<^verbatim>\<open>sharp(image).resize({ width: size }).toBuffer()\<close> and the SHA-256 hex digest are
  library functions; the model takes them as parameters: \<open>sharp image size\<close> is the
  encoded image, or \<open>None\<close> when sharp rejects.
\<close>

definition downscaleImage :: "(path \<Rightarrow> json \<Rightarrow> bytes option) \<Rightarrow> path \<Rightarrow> json \<Rightarrow> bytes io" where
  "downscaleImage sharp image' size' =
     (\<lambda>fs. case sharp image' size' of None \<Rightarrow> (Inl CodecError, fs) | Some b \<Rightarrow> (Inr b, fs))"

definition clearCache :: "path \<Rightarrow> unit io" where
  "clearCache cachePath = rm cachePath True True"

definition cache_name :: "json \<Rightarrow> string \<Rightarrow> string" where
  "cache_name size' imgName = template_string size' @ ''-'' @ imgName @ ''.jpg''"

definition cacheImages ::
  "(path \<Rightarrow> json \<Rightarrow> bytes option) \<Rightarrow> (bytes \<Rightarrow> string) \<Rightarrow> path list \<Rightarrow> path \<Rightarrow> json list \<Rightarrow> unit io" where
  "cacheImages sharp sha256_hex images cachePath sizes =
     io_bind (clearCache cachePath) (\<lambda>_.
     io_bind (mkdir_recursive cachePath) (\<lambda>_.
     io_bind (io_map (\<lambda>img.
                io_map (\<lambda>size.
                  io_bind (downscaleImage sharp img size) (\<lambda>downscaledImage.
                    let imgName = sha256_hex downscaledImage;
                        outputFilePath = path_join cachePath (cache_name size imgName)
                    in writeFile outputFilePath downscaledImage)) sizes) images) (\<lambda>_.
     io_return ())))"

text \<open>
  What is asked of an entry of the cache root: its content is what sharp returned for one
  of the images at one of the sizes, and its name is made of that size and of the digest
  of that content.
\<close>

definition written_by ::
  "(path \<Rightarrow> json \<Rightarrow> bytes option) \<Rightarrow> (bytes \<Rightarrow> string) \<Rightarrow> path list \<Rightarrow> json list
   \<Rightarrow> string \<times> node \<Rightarrow> bool" where
  "written_by sharp sha256_hex images sizes e =
     (\<exists>img \<in> set images. \<exists>sz \<in> set sizes. \<exists>bs.
        sharp img sz = Some bs \<and> snd e = File bs
        \<and> fst e = template_string sz @ ''-'' @ sha256_hex bs @ ''.jpg'')"

section \<open>The comparison engine\<close>

record 's ComparisonResult =
  rsize :: number
  score :: 's

text \<open>
  \<^verbatim>\<open>recognizeFace\<close> is the similarity oracle. The repository's placeholder resolves to
  \<^verbatim>\<open>Math.random()\<close> after a fixed delay and never rejects; the model takes the value
  it resolves to for a call \<^verbatim>\<open>recognizeFace(face1, face2)\<close> as a parameter.
\<close>

definition compare ::
  "(string \<Rightarrow> string \<Rightarrow> 's) \<Rightarrow> string \<Rightarrow> ref \<Rightarrow> heap \<Rightarrow> 's ComparisonResult list \<times> heap" where
  "compare recognizeFace img images h =
     (let index = indexOf (h ! images) img;
          (images', h') =
             (if index \<noteq> - 1 then alloc (toSpliced (h ! images) (nat index) 1) h
              else (images, h))
      in (map (\<lambda>otherImage.
                 \<lparr>rsize = parseInt (hd (split_on CHR ''-'' otherImage)),
                  score = recognizeFace img otherImage\<rparr>) (h' ! images'),
          h'))"

fun compare_each ::
  "(string \<Rightarrow> string \<Rightarrow> 's) \<Rightarrow> string list \<Rightarrow> ref \<Rightarrow> heap \<Rightarrow> 's ComparisonResult list list \<times> heap" where
  "compare_each recognizeFace [] images h = ([], h)"
| "compare_each recognizeFace (img # rest) images h =
     (let (r, h1) = compare recognizeFace img images h;
          (rs, h2) = compare_each recognizeFace rest images h1
      in (r # rs, h2))"

definition runAllComparisons ::
  "(string \<Rightarrow> string \<Rightarrow> 's) \<Rightarrow> path \<Rightarrow> 's ComparisonResult list list io" where
  "runAllComparisons recognizeFace cachePath =
     io_bind (readdir cachePath) (\<lambda>names.
       let (images, h) = alloc names [] in
       io_return (fst (compare_each recognizeFace names images h)))"

text \<open>The result the engine is to produce for subject \<open>s\<close> and other entry \<open>o'\<close>.\<close>

definition result_for :: "(string \<Rightarrow> string \<Rightarrow> 's) \<Rightarrow> string \<Rightarrow> string \<Rightarrow> 's ComparisonResult" where
  "result_for recognizeFace s o' =
     \<lparr>rsize = parseInt (takeWhile (\<lambda>c. c \<noteq> CHR ''-'') o'), score = recognizeFace s o'\<rparr>"

section \<open>Aggregation and the chart\<close>

record 's chart =
  labels :: "number list"
  data :: "'s list"

text \<open>
  Scores are floating-point numbers. The addition \<^verbatim>\<open>c + n\<close>, the initial \<^verbatim>\<open>0\<close> and the
  division by \<^verbatim>\<open>vals.length\<close> are parameters \<open>add\<close>, \<open>zero\<close> and \<open>divide_by\<close>, so that
  nothing is assumed about them. \<open>createChart\<close> returns the labels and the data series
  of the chart configuration it builds. This is the function of the script that has the
  argument block; in \<^verbatim>\<open>frqt.js\<close> the function is an unfinished draft, marked as such,
  and is never called.
\<close>

definition createChart ::
  "('s \<Rightarrow> 's \<Rightarrow> 's) \<Rightarrow> 's \<Rightarrow> ('s \<Rightarrow> nat \<Rightarrow> 's) \<Rightarrow> 's ComparisonResult list \<Rightarrow> 's chart" where
  "createChart add zero divide_by results =
     (let orderedResults =
            foldl (\<lambda>m r. assoc_set (rsize r)
                            ((case map_of m (rsize r) of None \<Rightarrow> [] | Some vals \<Rightarrow> vals) @ [score r]) m)
                  [] results;
          labels = map fst orderedResults;
          data = map (\<lambda>vals. divide_by (foldl add zero vals) (length vals)) (map snd orderedResults)
      in \<lparr>labels = labels, data = data\<rparr>)"

text \<open>What the aggregation is to compute: sizes in order of first occurrence, and the mean.\<close>

function first_seen :: "'a list \<Rightarrow> 'a list" where
  "first_seen [] = []"
| "first_seen (x # xs) = x # first_seen (removeAll x xs)"
  by pat_completeness auto

termination
  by (relation "measure length") (auto simp: less_Suc_eq_le length_removeAll_less_eq)

definition mean :: "('s \<Rightarrow> 's \<Rightarrow> 's) \<Rightarrow> 's \<Rightarrow> ('s \<Rightarrow> nat \<Rightarrow> 's) \<Rightarrow> 's list \<Rightarrow> 's" where
  "mean add zero divide_by vals = divide_by (foldl add zero vals) (length vals)"

section \<open>The command line and the run\<close>

text \<open>
  \<^verbatim>\<open>isNaN(v)\<close> converts \<open>v\<close> to a number first: \<^verbatim>\<open>null\<close> and booleans convert to 0 or 1;
  a string converts by the numeric-literal grammar, \<open>nan s\<close> telling whether string \<open>s\<close>
  converts to NaN; an array converts through its string; a plain object converts to NaN.
\<close>

fun isNaN :: "(string \<Rightarrow> bool) \<Rightarrow> json \<Rightarrow> bool" where
  "isNaN nan JNull = False"
| "isNaN nan (JBool b) = False"
| "isNaN nan (JNumber x) = False"
| "isNaN nan (JString s) = nan s"
| "isNaN nan (JArray xs) = nan (template_string (JArray xs))"
| "isNaN nan (JObject kvs) = True"

text \<open>
  The argument block of the script. \<open>resolve\<close> is \<^verbatim>\<open>path.resolve(process.cwd(), _)\<close> and
  \<open>JSON_parse\<close> is \<^verbatim>\<open>JSON.parse\<close>, \<open>None\<close> when it throws. \<open>argv\<close> is \<^verbatim>\<open>process.argv\<close>.
\<close>

definition parse_arguments ::
  "(string \<Rightarrow> path) \<Rightarrow> (string \<Rightarrow> json option) \<Rightarrow> (string \<Rightarrow> bool) \<Rightarrow> string list
   \<Rightarrow> (path \<times> json list) io" where
  "parse_arguments resolve JSON_parse nan argv =
     (if length argv < 4 then io_throw InsufficientArguments
      else
        let testdataPath = resolve (argv ! 2) in
        io_bind (access testdataPath) (\<lambda>_.
          case JSON_parse (argv ! 3) of
            None \<Rightarrow> io_throw SyntaxError
          | Some (JArray sizes) \<Rightarrow>
              if list_ex (isNaN nan) sizes then io_throw SizesNotNumbers
              else io_return (testdataPath, sizes)
          | Some _ \<Rightarrow> io_throw SizesNotNumbers))"

text \<open>What the error message of the argument block asks for.\<close>

fun is_array_of_numbers :: "json \<Rightarrow> bool" where
  "is_array_of_numbers (JArray xs) = list_all (\<lambda>v. case v of JNumber _ \<Rightarrow> True | _ \<Rightarrow> False) xs"
| "is_array_of_numbers _ = False"

text \<open>The pipeline: the second \<^verbatim>\<open>try\<close>/\<^verbatim>\<open>finally\<close> of the script.\<close>

definition pipeline ::
  "(string \<Rightarrow> string \<Rightarrow> 's) \<Rightarrow> (path \<Rightarrow> json \<Rightarrow> bytes option) \<Rightarrow> (bytes \<Rightarrow> string)
   \<Rightarrow> ('s \<Rightarrow> 's \<Rightarrow> 's) \<Rightarrow> 's \<Rightarrow> ('s \<Rightarrow> nat \<Rightarrow> 's)
   \<Rightarrow> path \<Rightarrow> path \<Rightarrow> json list \<Rightarrow> 's chart io" where
  "pipeline recognizeFace sharp sha256_hex add zero divide_by testdataPath cachePath sizes =
     try_finally
       (io_bind (initImages testdataPath) (\<lambda>images.
        io_bind (cacheImages sharp sha256_hex images cachePath sizes) (\<lambda>_.
        io_bind (runAllComparisons recognizeFace cachePath) (\<lambda>results.
        io_return (createChart add zero divide_by (concat results))))))
       (clearCache cachePath)"

text \<open>
  In \<^verbatim>\<open>frqt.js\<close> the call of \<^verbatim>\<open>createChart\<close> is commented out and the flattened results
  are printed instead.
\<close>

definition pipeline_frqt ::
  "(string \<Rightarrow> string \<Rightarrow> 's) \<Rightarrow> (path \<Rightarrow> json \<Rightarrow> bytes option) \<Rightarrow> (bytes \<Rightarrow> string)
   \<Rightarrow> path \<Rightarrow> path \<Rightarrow> json list \<Rightarrow> 's ComparisonResult list io" where
  "pipeline_frqt recognizeFace sharp sha256_hex testdataPath cachePath sizes =
     try_finally
       (io_bind (initImages testdataPath) (\<lambda>images.
        io_bind (cacheImages sharp sha256_hex images cachePath sizes) (\<lambda>_.
        io_bind (runAllComparisons recognizeFace cachePath) (\<lambda>results.
        io_return (concat results)))))
       (clearCache cachePath)"

text \<open>
  The whole script: a failure of the argument block is reported and the process exits
  with code 1; an error that leaves the pipeline is uncaught, which also ends the
  process with code 1; otherwise the script runs to its end, code 0.
\<close>

datatype 's outcome = ArgumentError error | Uncaught error | Completed "'s chart"

fun exit_code :: "'s outcome \<Rightarrow> nat" where
  "exit_code (ArgumentError e) = 1"
| "exit_code (Uncaught e) = 1"
| "exit_code (Completed c) = 0"

definition main ::
  "(string \<Rightarrow> path) \<Rightarrow> (string \<Rightarrow> json option) \<Rightarrow> (string \<Rightarrow> bool)
   \<Rightarrow> (string \<Rightarrow> string \<Rightarrow> 's) \<Rightarrow> (path \<Rightarrow> json \<Rightarrow> bytes option) \<Rightarrow> (bytes \<Rightarrow> string)
   \<Rightarrow> ('s \<Rightarrow> 's \<Rightarrow> 's) \<Rightarrow> 's \<Rightarrow> ('s \<Rightarrow> nat \<Rightarrow> 's)
   \<Rightarrow> path \<Rightarrow> string list \<Rightarrow> filesystem \<Rightarrow> 's outcome \<times> filesystem" where
  "main resolve JSON_parse nan recognizeFace sharp sha256_hex add zero divide_by cachePath argv fs =
     (case parse_arguments resolve JSON_parse nan argv fs of
        (Inl e, fs') \<Rightarrow> (ArgumentError e, fs')
      | (Inr (testdataPath, sizes), fs') \<Rightarrow>
          (case pipeline recognizeFace sharp sha256_hex add zero divide_by
                  testdataPath cachePath sizes fs' of
             (Inl e, fs'') \<Rightarrow> (Uncaught e, fs'')
           | (Inr c, fs'') \<Rightarrow> (Completed c, fs'')))"

section \<open>Verified properties\<close>

subsection \<open>Evaluation on concrete inputs\<close>

text \<open>
  The recursive functions on numbers are unfolded by these rules only where a concrete
  argument decides their conditions.
\<close>

lemmas number_eval =
  number_to_string_def nat_to_string_def shortest_def shortest_from.simps level_candidate_def
  digits.simps digit_char_def round_double_def bitlen.simps Let_def

lemmas parse_eval =
  parseInt_def is_white_space_def is_digit_def digits_value_def digit_value_def to_number_def
  round_double_def bitlen.simps Let_def

lemmas io_eval =
  io_bind_def io_return_def io_throw_def try_finally_def readdir_def access_def absent_def is_dir_def
  alter_entry_def rm_def
  mkdir_recursive_def writeFile_def path_join_def downscaleImage_def clearCache_def
  cache_name_def Let_def

lemma number_to_string_100: "number_to_string 100 = ''100''"
  by (simp add: number_eval)

lemma number_to_string_200: "number_to_string 200 = ''200''"
  by (simp add: number_eval)

lemma is_double_100: "is_double 100" and is_double_200: "is_double 200"
  by (simp_all add: is_double_def round_double_def bitlen.simps Let_def)

lemma parseInt_100: "parseInt ''100'' = Num 100" and parseInt_200: "parseInt ''200'' = Num 200"
  by (simp_all add: parse_eval)

subsection \<open>Splitting, searching and splicing\<close>

lemma split_on_not_Nil: "split_on sep s \<noteq> []"
  by (induction s) (auto split: list.splits)

lemma hd_split_on: "hd (split_on sep s) = takeWhile (\<lambda>c. c \<noteq> sep) s"
  using split_on_not_Nil [of sep] by (induction s) (auto split: list.splits)

lemma indexOf_ge: "- 1 \<le> indexOf xs x"
  by (induction xs) (auto simp: Let_def)

lemma indexOf_absent: "indexOf xs x = - 1 \<longleftrightarrow> x \<notin> set xs"
proof (induction xs)
  case Nil
  then show ?case by simp
next
  case (Cons y ys)
  then show ?case using indexOf_ge [of ys x] by (auto simp: Let_def)
qed

lemma toSpliced_indexOf:
  "x \<in> set xs \<Longrightarrow> toSpliced xs (nat (indexOf xs x)) (Suc 0) = remove1 x xs"
proof (induction xs)
  case Nil
  then show ?case by simp
next
  case (Cons y ys)
  show ?case
  proof (cases "y = x")
    case True
    then show ?thesis by (simp add: toSpliced_def)
  next
    case False
    with Cons.prems have mem: "x \<in> set ys" by simp
    then have ne: "indexOf ys x \<noteq> - 1" by (simp add: indexOf_absent)
    with indexOf_ge [of ys x] have nn: "0 \<le> indexOf ys x" by linarith
    then have "nat (indexOf ys x + 1) = Suc (nat (indexOf ys x))" by linarith
    with False ne Cons.IH [OF mem] show ?thesis
      by (simp add: toSpliced_def Let_def)
  qed
qed

lemma compare_results:
  "fst (compare rf img images h) = map (result_for rf img) (remove1 img (h ! images))"
proof (cases "img \<in> set (h ! images)")
  case True
  then have "indexOf (h ! images) img \<noteq> - 1" by (simp add: indexOf_absent)
  with True show ?thesis
    by (simp add: compare_def alloc_def Let_def toSpliced_indexOf result_for_def hd_split_on)
next
  case False
  then have "indexOf (h ! images) img = - 1" by (simp add: indexOf_absent)
  with False show ?thesis
    by (simp add: compare_def Let_def remove1_idem result_for_def hd_split_on)
qed

lemma compare_heap:
  "snd (compare rf img images h) = h \<or> (\<exists>arr. snd (compare rf img images h) = h @ [arr])"
  by (simp add: compare_def alloc_def Let_def)

lemma compare_frame: "take (length h) (snd (compare rf img images h)) = h"
  using compare_heap [of rf img images h] by auto

lemma compare_cell: "r < length h \<Longrightarrow> snd (compare rf img images h) ! r = h ! r"
  using compare_heap [of rf img images h] by (auto simp: nth_append)

lemma compare_length: "length h \<le> length (snd (compare rf img images h))"
  using compare_heap [of rf img images h] by auto

lemma compare_each_frame:
  "take (length h) (snd (compare_each rf subjects images h)) = h"
proof (induction subjects arbitrary: h)
  case Nil
  then show ?case by simp
next
  case (Cons s ss)
  let ?h1 = "snd (compare rf s images h)"
  have "take (length h) (snd (compare_each rf ss images ?h1))
        = take (length h) (take (length ?h1) (snd (compare_each rf ss images ?h1)))"
    using compare_length [of h rf s images] by (simp add: min_def)
  also have "\<dots> = take (length h) ?h1" by (simp only: Cons.IH)
  also have "\<dots> = h" by (rule compare_frame)
  finally show ?case by (simp add: split_beta Let_def)
qed

lemma compare_each_results:
  "images < length h \<Longrightarrow>
   fst (compare_each rf subjects images h)
   = map (\<lambda>s. map (result_for rf s) (remove1 s (h ! images))) subjects"
proof (induction subjects arbitrary: h)
  case Nil
  then show ?case by simp
next
  case (Cons s ss)
  let ?h1 = "snd (compare rf s images h)"
  from Cons.prems have lt: "images < length ?h1"
    using compare_length [of h rf s images] by linarith
  from Cons.prems have cell: "?h1 ! images = h ! images" by (rule compare_cell)
  from Cons.IH [OF lt] cell show ?case
    by (simp add: split_beta Let_def compare_results)
qed



subsection \<open>Resolving and changing paths\<close>

lemma map_of_assoc_set: "map_of (assoc_set c n es) k = (if k = c then Some n else map_of es k)"
  by (induction es) auto

lemma map_of_filter_other: "map_of [e \<leftarrow> es. fst e \<noteq> c] k = (if k = c then None else map_of es k)"
  by (induction es) auto

lemma map_of_alter_entry:
  "map_of (alter_entry c f es) k = (if k = c then f (map_of es c) else map_of es k)"
  by (simp add: alter_entry_def map_of_assoc_set map_of_filter_other split: option.splits)

lemma lookup_errors: "lookup fs p = Inl e \<Longrightarrow> e = ENOENT \<or> e = ENOTDIR"
  by (induction fs p rule: lookup.induct) auto

lemma lookup_removed:
  "lookup fs p = Inr n \<Longrightarrow> lookup (alter_at False p (\<lambda>_. None) fs) p = Inl ENOENT"
  by (induction fs p arbitrary: n rule: lookup.induct) (auto simp: map_of_alter_entry)

lemma lookup_made:
  "lookup fs p = Inl ENOENT \<Longrightarrow> lookup (alter_at True p (\<lambda>_. Some (Dir [])) fs) p = Inr (Dir [])"
proof (induction p arbitrary: fs)
  case Nil
  then show ?case by (cases fs) auto
next
  case (Cons c cs)
  show ?case
  proof (cases fs)
    case None
    have "lookup (alter_at True cs (\<lambda>_. Some (Dir [])) None) cs = Inr (Dir [])"
      by (rule Cons.IH) simp
    with None show ?thesis by (simp add: map_of_alter_entry)
  next
    case (Some n)
    show ?thesis
    proof (cases n)
      case (File b)
      with Some Cons.prems show ?thesis by simp
    next
      case (Dir es)
      with Some Cons.prems have "lookup (map_of es c) cs = Inl ENOENT" by simp
      then have "lookup (alter_at True cs (\<lambda>_. Some (Dir [])) (map_of es c)) cs = Inr (Dir [])"
        by (rule Cons.IH)
      with Some Dir show ?thesis by (simp add: map_of_alter_entry)
    qed
  qed
qed

lemma lookup_child:
  "lookup fs q = Inr (Dir es) \<Longrightarrow>
   lookup fs (q @ [c]) = (case map_of es c of None \<Rightarrow> Inl ENOENT | Some n \<Rightarrow> Inr n)"
proof (induction fs q rule: lookup.induct)
  case (2 n)
  then show ?case by (cases "map_of es c") auto
qed auto

lemma alter_at_Nil: "alter_at create [] f = f"
  by (rule ext) simp

lemma lookup_parent_altered:
  "lookup fs q = Inr (Dir es) \<Longrightarrow>
   lookup (alter_at create (q @ [c]) f fs) q = Inr (Dir (alter_entry c f es))"
  by (induction fs q rule: lookup.induct) (auto simp: map_of_alter_entry alter_at_Nil)

lemma alter_entry_put: "alter_entry c (\<lambda>_. Some n) es = assoc_set c n es"
  by (simp add: alter_entry_def)

lemma writeFile_in_dir:
  assumes "lookup fs q = Inr (Dir es)"
  shows "writeFile (q @ [c]) bs fs
         = (case map_of es c of
              Some (Dir d) \<Rightarrow> (Inl EISDIR, fs)
            | _ \<Rightarrow> (Inr (), alter_at False (q @ [c]) (\<lambda>_. Some (File bs)) fs))"
    and "lookup (alter_at False (q @ [c]) (\<lambda>_. Some (File bs)) fs) q
         = Inr (Dir (assoc_set c (File bs) es))"
proof -
  from assms have "is_dir fs q" by (simp add: is_dir_def)
  with lookup_child [OF assms, of c]
  show "writeFile (q @ [c]) bs fs
         = (case map_of es c of
              Some (Dir d) \<Rightarrow> (Inl EISDIR, fs)
            | _ \<Rightarrow> (Inr (), alter_at False (q @ [c]) (\<lambda>_. Some (File bs)) fs))"
    by (simp add: writeFile_def split: option.splits node.splits)
  from lookup_parent_altered [OF assms, of False c "\<lambda>_. Some (File bs)"]
  show "lookup (alter_at False (q @ [c]) (\<lambda>_. Some (File bs)) fs) q
         = Inr (Dir (assoc_set c (File bs) es))"
    by (simp add: alter_entry_put)
qed

subsection \<open>Running all comparisons\<close>

lemma length_concat_remove1:
  "length (concat (map (\<lambda>s. map (f s) (remove1 s xs)) ys))
   = length [s \<leftarrow> ys. s \<in> set xs] * (length xs - 1) + length [s \<leftarrow> ys. s \<notin> set xs] * length xs"
  by (induction ys) (auto simp: length_remove1 remove1_idem)

lemma runAllComparisons_listing:
  assumes "lookup fs cachePath = Inr (Dir es)"
  shows "runAllComparisons rf cachePath fs
         = (Inr (map (\<lambda>s. map (result_for rf s) (remove1 s (map fst es))) (map fst es)), fs)"
proof -
  have "fst (compare_each rf (map fst es) 0 [map fst es])
        = map (\<lambda>s. map (result_for rf s) (remove1 s ([map fst es] ! 0))) (map fst es)"
    by (rule compare_each_results) simp
  with assms show ?thesis
    by (simp add: runAllComparisons_def io_bind_def readdir_def alloc_def io_return_def)
qed

text \<open>
  C1. For a cache root with \<open>n\<close> uniquely named entries, \<open>runAllComparisons\<close> returns
  \<open>n * (n - 1)\<close> results: every subject is compared against every listed entry except
  the one of its own name. Run with the oracle that returns the pair it is called on,
  no result carries a pair of equal names.
\<close>

theorem runAll_pair_count:
  assumes dir: "lookup fs cachePath = Inr (Dir es)" and uniq: "distinct (map fst es)"
  shows "(\<exists>rs. runAllComparisons rf cachePath fs = (Inr rs, fs)
           \<and> rs = map (\<lambda>s. map (result_for rf s) [o' \<leftarrow> map fst es. o' \<noteq> s]) (map fst es)
           \<and> length (concat rs) = length es * (length es - 1))
       \<and> (\<exists>ps. runAllComparisons Pair cachePath fs = (Inr ps, fs)
           \<and> length (concat ps) = length es * (length es - 1)
           \<and> (\<forall>r \<in> set (concat ps). fst (score r) \<noteq> snd (score r)))"
proof -
  let ?names = "map fst es"
  have rm: "remove1 s ?names = [o' \<leftarrow> ?names. o' \<noteq> s]" for s
    using uniq by (simp add: distinct_remove1_removeAll removeAll_filter_not_eq) metis
  have len: "length (concat (map (\<lambda>s. map (result_for rf' s) (remove1 s ?names)) ?names))
             = length es * (length es - 1)" for rf' :: "string \<Rightarrow> string \<Rightarrow> 'c"
    by (simp only: length_concat_remove1 [of "result_for rf'" ?names ?names]) simp
  have a: "\<exists>rs. runAllComparisons rf cachePath fs = (Inr rs, fs)
           \<and> rs = map (\<lambda>s. map (result_for rf s) [o' \<leftarrow> map fst es. o' \<noteq> s]) (map fst es)
           \<and> length (concat rs) = length es * (length es - 1)"
    using len [of rf] by (simp add: runAllComparisons_listing [of fs cachePath es, OF dir] rm)
  have b: "\<exists>ps. runAllComparisons Pair cachePath fs = (Inr ps, fs)
           \<and> length (concat ps) = length es * (length es - 1)
           \<and> (\<forall>r \<in> set (concat ps). fst (score r) \<noteq> snd (score r))"
    using len [of Pair]
    by (auto simp: runAllComparisons_listing [of fs cachePath es, OF dir] rm result_for_def)
  from a b show ?thesis by (rule conjI)
qed

theorem runAll_pair_count_witness:
  "lookup (Some (Dir [(''cache'', Dir [(''100-aa.jpg'', File ''x''), (''200-bb.jpg'', File ''y''),
                                       (''100-cc.jpg'', File ''z'')])])) [''cache'']
     = Inr (Dir [(''100-aa.jpg'', File ''x''), (''200-bb.jpg'', File ''y''), (''100-cc.jpg'', File ''z'')])
   \<and> distinct (map fst [(''100-aa.jpg'', File ''x''), (''200-bb.jpg'', File ''y''), (''100-cc.jpg'', File ''z'')])
   \<and> (\<exists>ps. runAllComparisons Pair [''cache'']
              (Some (Dir [(''cache'', Dir [(''100-aa.jpg'', File ''x''), (''200-bb.jpg'', File ''y''),
                                           (''100-cc.jpg'', File ''z'')])]))
            = (Inr ps, Some (Dir [(''cache'', Dir [(''100-aa.jpg'', File ''x''), (''200-bb.jpg'', File ''y''),
                                                   (''100-cc.jpg'', File ''z'')])]))
          \<and> length (concat ps) = 6
          \<and> (\<forall>r \<in> set (concat ps). fst (score r) \<noteq> snd (score r)))"
proof -
  let ?es = "[(''100-aa.jpg'', File ''x''), (''200-bb.jpg'', File ''y''), (''100-cc.jpg'', File ''z'')]"
  let ?fs = "Some (Dir [(''cache'', Dir ?es)])"
  have h1: "lookup ?fs [''cache''] = Inr (Dir ?es)" by simp
  have h2: "distinct (map fst ?es)" by simp
  from runAll_pair_count [of ?fs "[''cache'']" ?es Pair, OF h1 h2]
  have "\<exists>ps. runAllComparisons Pair [''cache''] ?fs = (Inr ps, ?fs)
          \<and> length (concat ps) = length ?es * (length ?es - 1)
          \<and> (\<forall>r \<in> set (concat ps). fst (score r) \<noteq> snd (score r))"
    by (rule conjunct2)
  moreover have n: "length ?es * (length ?es - 1) = 6" by simp
  ultimately have "\<exists>ps. runAllComparisons Pair [''cache''] ?fs = (Inr ps, ?fs)
          \<and> length (concat ps) = 6
          \<and> (\<forall>r \<in> set (concat ps). fst (score r) \<noteq> snd (score r))"
    by (simp only: n)
  with h1 h2 show ?thesis by blast
qed

text \<open>
  C4. In the result of comparing subject \<open>s\<close> with another entry \<open>o'\<close>, the size is
  \<open>parseInt\<close> of what precedes the first dash of \<open>o'\<close>, the other entry's name, and
  the score is the oracle applied to \<open>s\<close> and \<open>o'\<close> in this order.
\<close>

theorem compare_size_of_other:
  "fst (compare recognizeFace s images h)
   = map (\<lambda>o'. \<lparr>rsize = parseInt (takeWhile (\<lambda>c. c \<noteq> CHR ''-'') o'),
                 score = recognizeFace s o'\<rparr>) (remove1 s (h ! images))"
proof -
  have "result_for recognizeFace s
        = (\<lambda>o'. \<lparr>rsize = parseInt (takeWhile (\<lambda>c. c \<noteq> CHR ''-'') o'), score = recognizeFace s o'\<rparr>)"
    by (rule ext) (simp add: result_for_def)
  then show ?thesis by (simp add: compare_results)
qed

text \<open>
  C10. \<open>compare\<close> leaves every array that was on the heap as it was, the shared listing
  among them: the spliced copy is a new array. So the calls that \<open>runAllComparisons\<close>
  makes over one listing each see the whole listing, and each subject's comparison set
  is the listing without that subject.
\<close>

theorem compare_keeps_listing:
  assumes "images < length h"
  shows "take (length h) (snd (compare rf img images h)) = h
       \<and> snd (compare rf img images h) ! images = h ! images
       \<and> take (length h) (snd (compare_each rf subjects images h)) = h
       \<and> snd (compare_each rf subjects images h) ! images = h ! images
       \<and> fst (compare_each rf subjects images h)
           = map (\<lambda>s. map (result_for rf s) (remove1 s (h ! images))) subjects"
proof -
  have "snd (compare_each rf subjects images h) ! images
        = take (length h) (snd (compare_each rf subjects images h)) ! images"
    using assms by simp
  then have "snd (compare_each rf subjects images h) ! images = h ! images"
    by (simp only: compare_each_frame)
  with assms show ?thesis
    by (simp add: compare_frame compare_cell compare_each_frame compare_each_results)
qed

theorem compare_keeps_listing_witness:
  "(0::nat) < length [[''100-a.jpg'', ''200-b.jpg'', ''300-c.jpg'']]
   \<and> snd (compare (\<lambda>a b. ()) ''200-b.jpg'' 0 [[''100-a.jpg'', ''200-b.jpg'', ''300-c.jpg'']])
       = [[''100-a.jpg'', ''200-b.jpg'', ''300-c.jpg''], [''100-a.jpg'', ''300-c.jpg'']]
   \<and> snd (compare_each (\<lambda>a b. ()) [''100-a.jpg'', ''200-b.jpg'', ''300-c.jpg''] 0
             [[''100-a.jpg'', ''200-b.jpg'', ''300-c.jpg'']]) ! 0
       = [''100-a.jpg'', ''200-b.jpg'', ''300-c.jpg'']
   \<and> map (map rsize) (fst (compare_each (\<lambda>a b. ()) [''100-a.jpg'', ''200-b.jpg'', ''300-c.jpg''] 0
             [[''100-a.jpg'', ''200-b.jpg'', ''300-c.jpg'']]))
       = [[Num 200, Num 300], [Num 100, Num 300], [Num 100, Num 200]]"
proof -
  let ?l = "[''100-a.jpg'', ''200-b.jpg'', ''300-c.jpg'']"
  have h: "(0::nat) < length [?l]" by simp
  have sp: "snd (compare (\<lambda>a b. ()) ''200-b.jpg'' 0 [?l]) = [?l, [''100-a.jpg'', ''300-c.jpg'']]"
    by (simp add: compare_def alloc_def toSpliced_def Let_def)
  have p: "parseInt ''100'' = Num 100" "parseInt ''200'' = Num 200" "parseInt ''300'' = Num 300"
    by (simp_all add: parseInt_def is_white_space_def is_digit_def digits_value_def
          digit_value_def to_number_def round_double_def Let_def bitlen.simps)
  from compare_keeps_listing [of 0 "[?l]" "\<lambda>a b. ()" "''200-b.jpg''" ?l, OF h] sp p h
  show ?thesis by (simp add: result_for_def)
qed

subsection \<open>The monad of asynchronous operations\<close>

lemma snd_io_bind:
  "snd (io_bind m f fs) = (case m fs of (Inl e, fs') \<Rightarrow> fs' | (Inr x, fs') \<Rightarrow> snd (f x fs'))"
  by (simp add: io_bind_def split: prod.splits sum.splits)

lemma snd_io_bind_return: "snd (io_bind m (\<lambda>x. io_return (g x)) fs) = snd (m fs)"
  by (simp add: io_bind_def io_return_def split: prod.splits sum.splits)

lemma io_map_inv:
  assumes "\<And>x fs. x \<in> set xs \<Longrightarrow> I fs \<Longrightarrow> I (snd (f x fs))" and "I fs"
  shows "I (snd (io_map f xs fs))"
  using assms
proof (induction xs arbitrary: fs)
  case Nil
  then show ?case by (simp add: io_return_def)
next
  case (Cons x xs)
  have step: "I (snd (f x fs))" using Cons.prems by simp
  show ?case
  proof (cases "f x fs")
    case (Pair r fs1)
    with step have I1: "I fs1" by simp
    show ?thesis
    proof (cases r)
      case (Inl e)
      with Pair I1 show ?thesis by (simp add: io_bind_def)
    next
      case (Inr y)
      have "I (snd (io_map f xs fs1))"
        using Cons.prems(1) I1 by (intro Cons.IH) auto
      with Pair Inr show ?thesis
        by (auto simp: snd_io_bind io_return_def split: prod.splits sum.splits)
    qed
  qed
qed

lemma io_map_Cons_Inr:
  assumes "io_map f (x # xs) fs = (Inr zs, fs')"
  shows "\<exists>y fs1 ys. f x fs = (Inr y, fs1) \<and> io_map f xs fs1 = (Inr ys, fs') \<and> zs = y # ys"
  using assms
  by (auto simp: io_bind_def io_return_def split: prod.splits sum.splits)

subsection \<open>Clearing the cache\<close>

lemma clearCache_result:
  "clearCache p fs =
     (case lookup fs p of
        Inl e \<Rightarrow> if e = ENOENT then (Inr (), fs) else (Inl ENOTDIR, fs)
      | Inr n \<Rightarrow> (Inr (), alter_at False p (\<lambda>_. None) fs))"
proof (cases "lookup fs p")
  case (Inl e)
  with lookup_errors [OF Inl] show ?thesis by (auto simp: clearCache_def rm_def)
next
  case (Inr n)
  then show ?thesis by (cases n) (simp_all add: clearCache_def rm_def)
qed



lemma rm_without_force_fails:
  "lookup fs p = Inl ENOENT \<Longrightarrow> rm p recursive False fs = (Inl ENOENT, fs)"
  by (simp add: rm_def)




subsection \<open>Cleanup on every exit path\<close>

lemma try_finally_clearCache:
  "try_finally body (clearCache p) fs
   = (case lookup (snd (body fs)) p of
        Inl e \<Rightarrow> if e = ENOENT then (fst (body fs), snd (body fs)) else (Inl ENOTDIR, snd (body fs))
      | Inr n \<Rightarrow> (fst (body fs), alter_at False p (\<lambda>_. None) (snd (body fs))))"
  by (cases "body fs") (simp add: try_finally_def clearCache_result split: sum.splits)

lemma absent_after_try_finally: "absent (snd (try_finally body (clearCache p) fs)) p"
proof (cases "lookup (snd (body fs)) p")
  case (Inl e)
  then show ?thesis by (simp add: try_finally_clearCache absent_def)
next
  case (Inr n)
  then show ?thesis by (simp add: try_finally_clearCache absent_def lookup_removed)
qed

text \<open>
  C5. Whatever the body of the pipeline does (it may fail in discovery, in population
  or in comparison, or succeed), \<open>clearCache\<close> runs after it, and in the state the
  pipeline leaves the cache root does not exist. This holds for the pipeline of either
  script. Where the body left a cache root, the root is removed and the outcome of the
  body is passed on; where it left none, the state is the body's, and the outcome is the
  body's unless the root lies below a regular file, which \<open>clearCache\<close> reports.
\<close>

theorem pipeline_always_clears:
  "absent (snd (pipeline rf sharp sha add zero divide_by testdataPath cachePath sizes fs)) cachePath
   \<and> absent (snd (pipeline_frqt rf sharp sha testdataPath cachePath sizes fs)) cachePath
   \<and> pipeline rf sharp sha add zero divide_by testdataPath cachePath sizes fs
       = (let body = io_bind (initImages testdataPath) (\<lambda>images.
                     io_bind (cacheImages sharp sha images cachePath sizes) (\<lambda>_.
                     io_bind (runAllComparisons rf cachePath) (\<lambda>results.
                     io_return (createChart add zero divide_by (concat results)))))
          in case lookup (snd (body fs)) cachePath of
               Inl e \<Rightarrow>
                 if e = ENOENT then (fst (body fs), snd (body fs))
                 else (Inl ENOTDIR, snd (body fs))
             | Inr n \<Rightarrow> (fst (body fs), alter_at False cachePath (\<lambda>_. None) (snd (body fs))))"
proof -
  let ?body = "io_bind (initImages testdataPath) (\<lambda>images.
               io_bind (cacheImages sharp sha images cachePath sizes) (\<lambda>_.
               io_bind (runAllComparisons rf cachePath) (\<lambda>results.
               io_return (createChart add zero divide_by (concat results)))))"
  have run: "pipeline rf sharp sha add zero divide_by testdataPath cachePath sizes fs
             = (case lookup (snd (?body fs)) cachePath of
                  Inl e \<Rightarrow>
                    if e = ENOENT then (fst (?body fs), snd (?body fs))
                    else (Inl ENOTDIR, snd (?body fs))
                | Inr n \<Rightarrow> (fst (?body fs), alter_at False cachePath (\<lambda>_. None) (snd (?body fs))))"
    unfolding pipeline_def by (rule try_finally_clearCache)
  have "absent (snd (pipeline rf sharp sha add zero divide_by testdataPath cachePath sizes fs)) cachePath"
    unfolding pipeline_def by (rule absent_after_try_finally)
  moreover
  have "absent (snd (pipeline_frqt rf sharp sha testdataPath cachePath sizes fs)) cachePath"
    unfolding pipeline_frqt_def by (rule absent_after_try_finally)
  ultimately show ?thesis using run by (simp add: Let_def)
qed

text \<open>
  Four runs: a successful one (two images in two categories, sizes 100 and 200: four
  cache entries, twelve results, two labels), one that fails in discovery, one that
  fails in population, and one whose cache root lies below a regular file. Each leaves
  no cache root.
\<close>

lemma initImages_example:
  "initImages [''data'']
     (Some (Dir [(''data'', Dir [(''a'', Dir [(''i'', File ''I'')]),
                                 (''b'', Dir [(''j'', File ''J'')])])]))
   = (Inr [[''data'', ''a'', ''i''], [''data'', ''b'', ''j'']],
      Some (Dir [(''data'', Dir [(''a'', Dir [(''i'', File ''I'')]),
                                 (''b'', Dir [(''j'', File ''J'')])])]))"
  by (simp add: initImages_def io_eval)

lemma pipeline_example:
  "pipeline (\<lambda>a b. 1 :: real) (\<lambda>img sz. Some (last img)) (\<lambda>bs. bs) (+) 0 (\<lambda>s n. s / real n)
     [''data''] [''cache''] [JNumber 100, JNumber 200]
     (Some (Dir [(''data'', Dir [(''a'', Dir [(''i'', File ''I'')]),
                                 (''b'', Dir [(''j'', File ''J'')])])]))
   = (Inr \<lparr>labels = [Num 200, Num 100], data = [1, 1]\<rparr>,
      Some (Dir [(''data'', Dir [(''a'', Dir [(''i'', File ''I'')]),
                                 (''b'', Dir [(''j'', File ''J'')])])]))"
  by (simp add: pipeline_def initImages_def cacheImages_def runAllComparisons_def createChart_def
        compare_def alloc_def toSpliced_def io_eval number_to_string_100 number_to_string_200
        parseInt_100 parseInt_200)

lemma pipeline_discovery_failure_example:
  "pipeline rf sharp sha add zero divide_by [''data''] [''cache''] sizes
     (Some (Dir [(''cache'', Dir [(''stale'', File ''x'')])]))
   = (Inl ENOENT, Some (Dir []))"
  by (simp add: pipeline_def initImages_def io_eval)

lemma pipeline_population_failure_example:
  "pipeline rf (\<lambda>img sz. if sz = JNumber 200 then None else Some (last img)) (\<lambda>bs. bs)
     add zero divide_by [''data''] [''cache''] [JNumber 100, JNumber 200]
     (Some (Dir [(''data'', Dir [(''a'', Dir [(''i'', File ''I'')])])]))
   = (Inl CodecError, Some (Dir [(''data'', Dir [(''a'', Dir [(''i'', File ''I'')])])]))"
  by (simp add: pipeline_def initImages_def cacheImages_def io_eval number_to_string_100)

lemma pipeline_below_file_example:
  "pipeline rf sharp sha add zero divide_by [''data''] [''plainfile'', ''cache''] sizes
     (Some (Dir [(''data'', Dir []), (''plainfile'', File ''x'')]))
   = (Inl ENOTDIR, Some (Dir [(''data'', Dir []), (''plainfile'', File ''x'')]))"
  by (simp add: pipeline_def initImages_def cacheImages_def io_eval)

subsection \<open>What populate leaves in the cache root\<close>

lemma set_assoc_set: "set (assoc_set k v ps) \<subseteq> insert (k, v) (set ps)"
  by (induction ps) (auto split: if_splits)

lemma write_step_inv:
  assumes img: "img \<in> set images" and sz: "sz \<in> set sizes"
    and inv: "\<exists>es. lookup fs cachePath = Inr (Dir es) \<and> (\<forall>e \<in> set es. written_by sharp sha images sizes e)"
  shows "\<exists>es. lookup (snd (io_bind (downscaleImage sharp img sz) (\<lambda>downscaledImage.
                 let imgName = sha downscaledImage;
                     outputFilePath = path_join cachePath (cache_name sz imgName)
                 in writeFile outputFilePath downscaledImage) fs)) cachePath = Inr (Dir es)
              \<and> (\<forall>e \<in> set es. written_by sharp sha images sizes e)"
proof (cases "sharp img sz")
  case None
  with inv show ?thesis by (simp add: io_bind_def downscaleImage_def)
next
  case (Some bs)
  from inv obtain es where es: "lookup fs cachePath = Inr (Dir es)"
    and ok: "\<forall>e \<in> set es. written_by sharp sha images sizes e" by blast
  let ?nm = "cache_name sz (sha bs)"
  let ?fs' = "alter_at False (cachePath @ [?nm]) (\<lambda>_. Some (File bs)) fs"
  have new: "written_by sharp sha images sizes (?nm, File bs)"
    using img sz Some by (auto simp: written_by_def cache_name_def)
  have upd: "\<forall>e \<in> set (assoc_set ?nm (File bs) es). written_by sharp sha images sizes e"
    using set_assoc_set [of ?nm "File bs" es] ok new by auto
  have step: "snd (io_bind (downscaleImage sharp img sz) (\<lambda>downscaledImage.
                 let imgName = sha downscaledImage;
                     outputFilePath = path_join cachePath (cache_name sz imgName)
                 in writeFile outputFilePath downscaledImage) fs) = fs
            \<or> snd (io_bind (downscaleImage sharp img sz) (\<lambda>downscaledImage.
                 let imgName = sha downscaledImage;
                     outputFilePath = path_join cachePath (cache_name sz imgName)
                 in writeFile outputFilePath downscaledImage) fs) = ?fs'"
    using Some
    by (simp add: io_bind_def downscaleImage_def path_join_def Let_def writeFile_in_dir(1) [OF es]
             split: option.splits node.splits)
  have "lookup ?fs' cachePath = Inr (Dir (assoc_set ?nm (File bs) es))"
    by (rule writeFile_in_dir(2) [OF es])
  with step es ok upd show ?thesis by auto
qed

lemma cacheImages_refused:
  "lookup fs cachePath = Inl ENOTDIR \<Longrightarrow>
   cacheImages sharp sha images cachePath sizes fs = (Inl ENOTDIR, fs)"
  by (simp add: cacheImages_def io_bind_def clearCache_result)

lemma cacheImages_start:
  assumes "lookup fs cachePath \<noteq> Inl ENOTDIR"
  shows "\<exists>fs0. lookup fs0 cachePath = Inr (Dir [])
           \<and> cacheImages sharp sha images cachePath sizes fs
               = io_bind (io_map (\<lambda>img. io_map (\<lambda>size.
                   io_bind (downscaleImage sharp img size) (\<lambda>downscaledImage.
                     let imgName = sha downscaledImage;
                         outputFilePath = path_join cachePath (cache_name size imgName)
                     in writeFile outputFilePath downscaledImage)) sizes) images)
                   (\<lambda>_. io_return ()) fs0"
proof -
  have "\<exists>fs1. clearCache cachePath fs = (Inr (), fs1) \<and> lookup fs1 cachePath = Inl ENOENT"
  proof (cases "lookup fs cachePath")
    case (Inl e)
    with assms lookup_errors [OF Inl] show ?thesis by (auto simp: clearCache_result)
  next
    case (Inr n)
    then show ?thesis by (simp add: clearCache_result lookup_removed)
  qed
  then obtain fs1 where c: "clearCache cachePath fs = (Inr (), fs1)"
    and gone: "lookup fs1 cachePath = Inl ENOENT" by blast
  let ?fs0 = "alter_at True cachePath (\<lambda>_. Some (Dir [])) fs1"
  have m: "mkdir_recursive cachePath fs1 = (Inr (), ?fs0)"
    using gone by (simp add: mkdir_recursive_def)
  have "lookup ?fs0 cachePath = Inr (Dir [])" using gone by (rule lookup_made)
  moreover have "cacheImages sharp sha images cachePath sizes fs
               = io_bind (io_map (\<lambda>img. io_map (\<lambda>size.
                   io_bind (downscaleImage sharp img size) (\<lambda>downscaledImage.
                     let imgName = sha downscaledImage;
                         outputFilePath = path_join cachePath (cache_name size imgName)
                     in writeFile outputFilePath downscaledImage)) sizes) images)
                   (\<lambda>_. io_return ()) ?fs0"
    using c m by (simp add: cacheImages_def io_bind_def)
  ultimately show ?thesis by blast
qed

text \<open>
  C3. Populate is refused at the outset, writing nothing, when its cache root lies below
  a regular file. Otherwise, whether it succeeds or fails part-way, the cache root it
  leaves is a directory, and every entry in it holds exactly the bytes sharp returned for
  one of the images at one of the sizes, under the name made of that size and of the hex
  digest of those same bytes.
\<close>

theorem cacheImages_content_addressed:
  "(lookup fs cachePath = Inl ENOTDIR
      \<and> cacheImages sharp sha256_hex images cachePath sizes fs = (Inl ENOTDIR, fs))
   \<or> (\<exists>es. lookup (snd (cacheImages sharp sha256_hex images cachePath sizes fs)) cachePath
              = Inr (Dir es)
           \<and> (\<forall>e \<in> set es. written_by sharp sha256_hex images sizes e))"
proof (cases "lookup fs cachePath = Inl ENOTDIR")
  case True
  then show ?thesis by (simp add: cacheImages_refused)
next
  case False
  let ?I = "\<lambda>fs. \<exists>es. lookup fs cachePath = Inr (Dir es)
                 \<and> (\<forall>e \<in> set es. written_by sharp sha256_hex images sizes e)"
  let ?inner = "\<lambda>img. io_map (\<lambda>size.
                  io_bind (downscaleImage sharp img size) (\<lambda>downscaledImage.
                    let imgName = sha256_hex downscaledImage;
                        outputFilePath = path_join cachePath (cache_name size imgName)
                    in writeFile outputFilePath downscaledImage)) sizes"
  from cacheImages_start [OF False, of sharp sha256_hex images sizes] obtain fs0
    where fs0: "lookup fs0 cachePath = Inr (Dir [])"
      and run: "cacheImages sharp sha256_hex images cachePath sizes fs
                = io_bind (io_map ?inner images) (\<lambda>_. io_return ()) fs0"
    by blast
  have I0: "?I fs0" using fs0 by simp
  have inner: "?I (snd (?inner img fs1))" if "img \<in> set images" "?I fs1" for img fs1
    using that(2) by (rule io_map_inv [rotated]) (rule write_step_inv [OF that(1)])
  have outer: "?I (snd (io_map ?inner images fs0))"
    using I0 by (rule io_map_inv [rotated]) (rule inner)
  have "snd (cacheImages sharp sha256_hex images cachePath sizes fs) = snd (io_map ?inner images fs0)"
    by (simp only: run snd_io_bind_return)
  with outer show ?thesis by simp
qed

theorem cacheImages_content_addressed_witness:
  "lookup (snd (cacheImages (\<lambda>img sz. Some ''x'') (\<lambda>bs. ''ab'') [[''data'', ''a'', ''i.png'']]
                  [''cache''] [JNumber 100] None)) [''cache'']
     = Inr (Dir [(''100-ab.jpg'', File ''x'')])
   \<and> written_by (\<lambda>img sz. Some ''x'') (\<lambda>bs. ''ab'') [[''data'', ''a'', ''i.png'']] [JNumber 100]
         (''100-ab.jpg'', File ''x'')"
proof -
  let ?run = "cacheImages (\<lambda>img sz. Some ''x'') (\<lambda>bs. ''ab'') [[''data'', ''a'', ''i.png'']] [''cache'']
          [JNumber 100] None"
  have run: "lookup (snd ?run) [''cache''] = Inr (Dir [(''100-ab.jpg'', File ''x'')])"
    by (simp add: cacheImages_def io_eval number_to_string_100)
  have "lookup None [''cache''] \<noteq> Inl ENOTDIR" by simp
  with cacheImages_content_addressed
         [of None "[''cache'']" "\<lambda>img sz. Some ''x''" "\<lambda>bs. ''ab''" "[[''data'', ''a'', ''i.png'']]"
             "[JNumber 100]"]
  obtain es where "lookup (snd ?run) [''cache''] = Inr (Dir es)"
    and "\<forall>e \<in> set es. written_by (\<lambda>img sz. Some ''x'') (\<lambda>bs. ''ab'') [[''data'', ''a'', ''i.png'']] [JNumber 100] e"
    by blast
  with run show ?thesis by simp
qed

subsection \<open>Printing and parsing decimal digits\<close>

lemma digit_char_props:
  assumes "d < 10"
  shows "is_digit (digit_char d)" and "digit_value (digit_char d) = d"
    and "digit_char d \<noteq> CHR ''-''" and "digit_char d \<noteq> CHR ''+''"
    and "\<not> is_white_space (digit_char d)"
proof -
  from assms have "d \<in> {0, 1, 2, 3, 4, 5, 6, 7, 8, 9}" by auto
  then show "is_digit (digit_char d)" and "digit_value (digit_char d) = d"
    and "digit_char d \<noteq> CHR ''-''" and "digit_char d \<noteq> CHR ''+''"
    and "\<not> is_white_space (digit_char d)"
    by (auto simp: digit_char_def is_digit_def digit_value_def is_white_space_def)
qed

lemma digits_not_Nil: "digits n \<noteq> []"
  by (subst digits.simps) simp

lemma digits_all_digit: "c \<in> set (digits n) \<Longrightarrow> is_digit c"
proof (induction n arbitrary: c rule: digits.induct)
  case (1 n)
  show ?case
  proof (cases "n < 10")
    case True
    with "1.prems" show ?thesis
      by (subst (asm) digits.simps) (simp add: digit_char_props)
  next
    case False
    with "1.prems" have "c \<in> set (digits (n div 10)) \<or> c = digit_char (n mod 10)"
      by (subst (asm) digits.simps) auto
    with False "1.IH" show ?thesis by (auto simp: digit_char_props)
  qed
qed

lemma digits_value_snoc: "digits_value (Z @ [c]) = 10 * digits_value Z + digit_value c"
  by (simp add: digits_value_def)

lemma digits_value_digits: "digits_value (digits n) = n"
proof (induction n rule: digits.induct)
  case (1 n)
  show ?case
  proof (cases "n < 10")
    case True
    then show ?thesis
      by (subst digits.simps) (simp add: digits_value_def digit_char_props)
  next
    case False
    with "1.IH" show ?thesis
      by (subst digits.simps) (simp add: digits_value_snoc digit_char_props)
  qed
qed

lemma length_digits_le: "n < 10 ^ m \<Longrightarrow> 0 < m \<Longrightarrow> length (digits n) \<le> m"
proof (induction n arbitrary: m rule: digits.induct)
  case (1 n)
  show ?case
  proof (cases "n < 10")
    case True
    with "1.prems" show ?thesis by (subst digits.simps) simp
  next
    case False
    from "1.prems" obtain m' where m: "m = Suc m'" by (cases m) auto
    with False "1.prems" have "0 < m'" by (cases m') auto
    moreover from "1.prems" m have "n div 10 < 10 ^ m'" by (simp add: less_mult_imp_div_less mult.commute)
    ultimately have "length (digits (n div 10)) \<le> m'" using False "1.IH" by simp
    with False m show ?thesis by (subst digits.simps) simp
  qed
qed

lemma less_pow_length_digits: "n < 10 ^ length (digits n)"
proof (induction n rule: digits.induct)
  case (1 n)
  show ?case
  proof (cases "n < 10")
    case True
    then show ?thesis by (subst digits.simps) simp
  next
    case False
    with "1.IH" have "n div 10 < 10 ^ length (digits (n div 10))" by simp
    then have "n < 10 * 10 ^ length (digits (n div 10))" by linarith
    with False show ?thesis by (subst digits.simps) simp
  qed
qed

text \<open>\<open>parseInt\<close> reads back a printed natural number, rounded to a double.\<close>

lemma parseInt_all_digits:
  assumes "Z \<noteq> []" and "\<forall>c \<in> set Z. is_digit c"
  shows "parseInt Z = to_number (digits_value Z)"
proof -
  from assms obtain c cs where Z: "Z = c # cs" and c: "is_digit c" by (cases Z) auto
  from c have nws: "\<not> is_white_space c" and np: "c \<noteq> CHR ''+''" and nm: "c \<noteq> CHR ''-''"
    by (auto simp: is_digit_def is_white_space_def)
  have all: "takeWhile is_digit Z = Z"
    using assms(2) by (simp add: takeWhile_eq_all_conv)
  have dw: "dropWhile is_white_space Z = Z" using Z nws by simp
  have sg: "(case Z of [] \<Rightarrow> False | c # _ \<Rightarrow> c = CHR ''-'') = False"
    using Z nm by simp
  have st: "(case Z of [] \<Rightarrow> [] | c # r \<Rightarrow> if c = CHR ''+'' \<or> c = CHR ''-'' then r else Z) = Z"
    using Z np nm by simp
  show ?thesis
    unfolding parseInt_def Let_def dw sg st all using assms(1) by simp
qed

lemma parseInt_digits: "parseInt (digits v) = to_number v"
  using parseInt_all_digits [of "digits v"] digits_all_digit [of _ v]
  by (simp add: digits_not_Nil digits_value_digits)

lemma takeWhile_digits_dash:
  "takeWhile (\<lambda>c. c \<noteq> CHR ''-'') (digits v @ CHR ''-'' # rest) = digits v"
proof -
  have "\<not> is_digit CHR ''-''" by (simp add: is_digit_def)
  with digits_all_digit [of "CHR ''-''" v] have "CHR ''-'' \<notin> set (digits v)" by blast
  then have "\<forall>c \<in> set (digits v). c \<noteq> CHR ''-''" by blast
  then show ?thesis by (simp add: takeWhile_append2)
qed

subsection \<open>The shortest decimal that rounds to a double\<close>

lemma level_candidate_Some:
  assumes "level_candidate x p = Some v"
  shows "round_double v = x" and "v \<le> (x div p) * p + p"
  using assms by (auto simp: level_candidate_def Let_def split: if_splits)

lemma shortest_from_rounds:
  "round_double x = x \<Longrightarrow> round_double (shortest_from x d k) = x"
proof (induction x d k rule: shortest_from.induct)
  case (1 x d k)
  show ?case
  proof (cases "d \<le> k")
    case True
    with "1.prems" show ?thesis by (subst shortest_from.simps) simp
  next
    case False
    show ?thesis
    proof (cases "level_candidate x (10 ^ (d - k))")
      case None
      with False "1.IH" "1.prems" show ?thesis by (subst shortest_from.simps) simp
    next
      case (Some v)
      with False level_candidate_Some(1) [OF Some] show ?thesis
        by (subst shortest_from.simps) simp
    qed
  qed
qed

lemma shortest_from_bound:
  "x < 10 ^ d \<Longrightarrow> shortest_from x d k \<le> 10 ^ d"
proof (induction x d k rule: shortest_from.induct)
  case (1 x d k)
  show ?case
  proof (cases "d \<le> k")
    case True
    with "1.prems" show ?thesis by (subst shortest_from.simps) simp
  next
    case False
    show ?thesis
    proof (cases "level_candidate x (10 ^ (d - k))")
      case None
      with False "1.IH" "1.prems" show ?thesis by (subst shortest_from.simps) simp
    next
      case (Some v)
      let ?p = "(10::nat) ^ (d - k)"
      from False have split: "(10::nat) ^ d = 10 ^ k * ?p"
        by (simp add: power_add [symmetric])
      with "1.prems" have "x div ?p < 10 ^ k"
        by (simp add: less_mult_imp_div_less)
      then have "(x div ?p + 1) * ?p \<le> 10 ^ k * ?p" by (intro mult_le_mono1) simp
      with split level_candidate_Some(2) [OF Some] have "v \<le> 10 ^ d" by (simp add: algebra_simps)
      with False Some show ?thesis by (subst shortest_from.simps) simp
    qed
  qed
qed

lemma round_double_10_21: "round_double (10 ^ 21) = 10 ^ 21"
  by (simp add: round_double_def bitlen.simps Let_def)

lemma nat_to_string_decimal:
  assumes dbl: "round_double x = x" and lt: "x < 10 ^ 21"
  shows "nat_to_string x = digits (shortest x) \<and> round_double (shortest x) = x"
proof -
  let ?d = "length (digits x)"
  have r: "round_double (shortest x) = x"
    using dbl by (simp add: shortest_def shortest_from_rounds)
  have "?d \<le> 21" using lt by (rule length_digits_le) simp
  then have "(10::nat) ^ ?d \<le> 10 ^ 21" by (intro power_increasing) simp_all
  moreover have "shortest x \<le> 10 ^ ?d"
    unfolding shortest_def by (rule shortest_from_bound) (rule less_pow_length_digits)
  ultimately have "shortest x \<le> 10 ^ 21" by linarith
  moreover have "shortest x \<noteq> 10 ^ 21"
  proof
    assume "shortest x = 10 ^ 21"
    with r round_double_10_21 have "x = 10 ^ 21" by simp
    with lt show False by simp
  qed
  ultimately have "shortest x < 10 ^ 21" by linarith
  then have "length (digits (shortest x)) \<le> 21" by (rule length_digits_le) simp
  with r show ?thesis by (simp add: nat_to_string_def Let_def)
qed

lemma parseInt_number_to_string:
  assumes "0 \<le> w" and "w < 10 ^ 21" and "is_double w"
  shows "parseInt (number_to_string w) = Num w"
    and "takeWhile (\<lambda>c. c \<noteq> CHR ''-'') (number_to_string w @ CHR ''-'' # rest) = number_to_string w"
proof -
  let ?x = "nat w"
  from assms have dbl: "round_double ?x = ?x" by (simp add: is_double_def)
  from assms have lt: "?x < 10 ^ 21" by (simp add: nat_less_iff)
  from nat_to_string_decimal [OF dbl lt]
  have s: "nat_to_string ?x = digits (shortest ?x)" and r: "round_double (shortest ?x) = ?x"
    by simp_all
  have "?x < 2 ^ 1024" using lt by (rule less_trans) simp
  with r have "to_number (shortest ?x) = Num (int ?x)" by (simp add: to_number_def Let_def)
  with assms s show "parseInt (number_to_string w) = Num w"
    by (simp add: number_to_string_def parseInt_digits)
  from assms s show "takeWhile (\<lambda>c. c \<noteq> CHR ''-'') (number_to_string w @ CHR ''-'' # rest) = number_to_string w"
    by (simp add: number_to_string_def takeWhile_digits_dash)
qed

subsection \<open>From a size to a file name and back\<close>

text \<open>
  C9. For a positive integer size below \<open>10^21\<close>, \<open>parseInt\<close> of the part of the
  generated name before the first dash is that size. The bound is where a JavaScript
  number stops being printed in plain decimal notation; it is far above every width
  populate can use: populate generates a name only once sharp has returned an image of
  that width.
\<close>

theorem cache_name_size_roundtrip:
  assumes "0 < w" and "w < 10 ^ 21" and "is_double w"
  shows "parseInt (hd (split_on CHR ''-'' (cache_name (JNumber w) imgName))) = Num w"
proof -
  from assms have nn: "0 \<le> w" by simp
  have "hd (split_on CHR ''-'' (cache_name (JNumber w) imgName))
        = takeWhile (\<lambda>c. c \<noteq> CHR ''-'') (number_to_string w @ CHR ''-'' # (imgName @ ''.jpg''))"
    by (simp add: hd_split_on cache_name_def)
  also have "\<dots> = number_to_string w"
    using nn assms(2,3) by (rule parseInt_number_to_string(2))
  finally show ?thesis
    using parseInt_number_to_string(1) [OF nn assms(2,3)] by simp
qed

theorem cache_name_size_roundtrip_witness:
  "(0::int) < 100 \<and> (100::int) < 10 ^ 21 \<and> is_double 100
   \<and> parseInt (hd (split_on CHR ''-'' (cache_name (JNumber 100) ''ab''))) = Num 100"
proof -
  have h1: "(0::int) < 100" and h2: "(100::int) < 10 ^ 21" by simp_all
  from h1 h2 is_double_100 cache_name_size_roundtrip [OF h1 h2 is_double_100, of "''ab''"]
  show ?thesis by simp
qed

text \<open>
  At a width sharp rejects populate stops before a name is made, and leaves an empty
  cache root.
\<close>

lemma cacheImages_rejected_width:
  "cacheImages (\<lambda>img sz. None) sha [[''data'', ''a'', ''i.png'']] [''cache''] [JNumber (10 ^ 21)] None
   = (Inl CodecError, Some (Dir [(''cache'', Dir [])]))"
  by (simp add: cacheImages_def io_eval)

subsection \<open>How many entries populate leaves\<close>

lemma map_fst_assoc_set:
  "map fst (assoc_set k v ps)
   = (if k \<in> set (map fst ps) then map fst ps else map fst ps @ [k])"
  by (induction ps) (force simp: image_iff)+

lemma fst_set_assoc_set: "fst ` set (assoc_set k v ps) = insert k (fst ` set ps)"
proof -
  have "set (map fst (assoc_set k v ps)) = insert k (set (map fst ps))"
    by (simp only: map_fst_assoc_set) (auto simp: insert_absorb)
  then show ?thesis by simp
qed

lemma distinct_assoc_set: "distinct (map fst ps) \<Longrightarrow> distinct (map fst (assoc_set k v ps))"
  by (simp only: map_fst_assoc_set) simp

lemma io_map_success_inv:
  assumes step: "\<And>x fs y fs' S. x \<in> set xs \<Longrightarrow> f x fs = (Inr y, fs') \<Longrightarrow> K S fs \<Longrightarrow> K (S \<union> A x) fs'"
    and run: "io_map f xs fs = (Inr ys, fs')" and start: "K S fs"
  shows "K (S \<union> (\<Union>x \<in> set xs. A x)) fs'"
  using assms
proof (induction xs arbitrary: fs S ys)
  case Nil
  then show ?case by (simp add: io_return_def)
next
  case (Cons x xs)
  from io_map_Cons_Inr [OF Cons.prems(2)] obtain y fs1 ys'
    where fx: "f x fs = (Inr y, fs1)" and rest: "io_map f xs fs1 = (Inr ys', fs')" by blast
  have K1: "K (S \<union> A x) fs1" using Cons.prems(1) [OF _ fx Cons.prems(3)] by simp
  have "K ((S \<union> A x) \<union> (\<Union>x \<in> set xs. A x)) fs'"
    using Cons.prems(1) rest K1 by (intro Cons.IH [where fs = fs1]) auto
  then show ?case by (simp add: Un_assoc)
qed

lemma io_map_success_all:
  assumes step: "\<And>x fs y fs'. x \<in> set xs \<Longrightarrow> f x fs = (Inr y, fs') \<Longrightarrow> P x"
    and run: "io_map f xs fs = (Inr ys, fs')"
  shows "\<forall>x \<in> set xs. P x"
  using assms
proof (induction xs arbitrary: fs ys)
  case Nil
  then show ?case by simp
next
  case (Cons x xs)
  from io_map_Cons_Inr [OF Cons.prems(2)] obtain y fs1 ys'
    where fx: "f x fs = (Inr y, fs1)" and rest: "io_map f xs fs1 = (Inr ys', fs')" by blast
  have "P x" using Cons.prems(1) [OF _ fx] by simp
  moreover have "\<forall>x \<in> set xs. P x"
    using Cons.prems(1) rest by (intro Cons.IH [where fs = fs1]) auto
  ultimately show ?case by simp
qed

text \<open>A write that succeeds adds the name of its file to the names in the cache root.\<close>

lemma write_step_success:
  assumes ok: "io_bind (downscaleImage sharp img sz) (\<lambda>downscaledImage.
                 let imgName = sha downscaledImage;
                     outputFilePath = path_join cachePath (cache_name sz imgName)
                 in writeFile outputFilePath downscaledImage) fs = (Inr y, fs')"
    and K: "\<exists>es. lookup fs cachePath = Inr (Dir es) \<and> distinct (map fst es) \<and> fst ` set es = S"
  shows "(\<exists>es. lookup fs' cachePath = Inr (Dir es) \<and> distinct (map fst es)
               \<and> fst ` set es = S \<union> {cache_name sz (sha (the (sharp img sz)))})
         \<and> sharp img sz \<noteq> None"
proof (cases "sharp img sz")
  case None
  with ok show ?thesis by (simp add: io_bind_def downscaleImage_def)
next
  case (Some bs)
  from K obtain es where es: "lookup fs cachePath = Inr (Dir es)" and d: "distinct (map fst es)"
    and S: "fst ` set es = S" by blast
  let ?nm = "cache_name sz (sha bs)"
  let ?fs' = "alter_at False (cachePath @ [?nm]) (\<lambda>_. Some (File bs)) fs"
  from ok Some have "fs' = ?fs'"
    by (auto simp: io_bind_def downscaleImage_def path_join_def Let_def writeFile_in_dir(1) [OF es]
             split: option.splits node.splits)
  moreover have "lookup ?fs' cachePath = Inr (Dir (assoc_set ?nm (File bs) es))"
    by (rule writeFile_in_dir(2) [OF es])
  ultimately show ?thesis using Some d S
    by (simp add: distinct_assoc_set fst_set_assoc_set)
qed

lemma cacheImages_success_names:
  assumes ok: "cacheImages sharp sha images cachePath sizes fs = (Inr (), fs')"
  shows "\<exists>es. lookup fs' cachePath = Inr (Dir es) \<and> distinct (map fst es)
           \<and> fst ` set es = (\<Union>img \<in> set images. \<Union>sz \<in> set sizes.
                                {cache_name sz (sha (the (sharp img sz)))})"
    and "\<forall>img \<in> set images. \<forall>sz \<in> set sizes. sharp img sz \<noteq> None"
proof -
  let ?K = "\<lambda>S fs. \<exists>es. lookup fs cachePath = Inr (Dir es) \<and> distinct (map fst es) \<and> fst ` set es = S"
  let ?step = "\<lambda>img size.
                  io_bind (downscaleImage sharp img size) (\<lambda>downscaledImage.
                    let imgName = sha downscaledImage;
                        outputFilePath = path_join cachePath (cache_name size imgName)
                    in writeFile outputFilePath downscaledImage)"
  let ?inner = "\<lambda>img. io_map (?step img) sizes"
  let ?A = "\<lambda>img. \<Union>sz \<in> set sizes. {cache_name sz (sha (the (sharp img sz)))}"
  have "lookup fs cachePath \<noteq> Inl ENOTDIR"
    using ok by (auto simp: cacheImages_refused)
  from cacheImages_start [OF this, of sharp sha images sizes] obtain fs0
    where fs0: "lookup fs0 cachePath = Inr (Dir [])"
      and start: "cacheImages sharp sha images cachePath sizes fs
                  = io_bind (io_map ?inner images) (\<lambda>_. io_return ()) fs0"
    by blast
  from ok start obtain ys where run: "io_map ?inner images fs0 = (Inr ys, fs')"
    by (auto simp: io_bind_def io_return_def split: prod.splits sum.splits)
  have K0: "?K {} fs0" using fs0 by simp
  have inner: "?K (S \<union> ?A img) fs2" if "?inner img fs1 = (Inr y, fs2)" "?K S fs1" for img fs1 y fs2 S
    using _ that
  proof (rule io_map_success_inv [where K = ?K and A = "\<lambda>sz. {cache_name sz (sha (the (sharp img sz)))}"])
    fix x fsa ya fsb Sa
    assume "?step img x fsa = (Inr ya, fsb)" and "?K Sa fsa"
    then show "?K (Sa \<union> {cache_name x (sha (the (sharp img x)))}) fsb"
      using write_step_success [of sharp img x sha cachePath fsa ya fsb Sa] by blast
  qed
  have "?K ({} \<union> (\<Union>img \<in> set images. ?A img)) fs'"
    using _ run K0
  proof (rule io_map_success_inv [where K = ?K and A = ?A])
    fix x fsa ya fsb Sa
    assume "?inner x fsa = (Inr ya, fsb)" and "?K Sa fsa"
    then show "?K (Sa \<union> ?A x) fsb" by (rule inner)
  qed
  then show "\<exists>es. lookup fs' cachePath = Inr (Dir es) \<and> distinct (map fst es)
           \<and> fst ` set es = (\<Union>img \<in> set images. ?A img)" by simp
  have inner_all: "\<forall>sz \<in> set sizes. sharp img sz \<noteq> None" if "?inner img fs1 = (Inr y, fs2)" for img fs1 y fs2
    using _ that
  proof (rule io_map_success_all [where P = "\<lambda>sz. sharp img sz \<noteq> None"])
    fix x fsa ya fsb
    assume "?step img x fsa = (Inr ya, fsb)"
    then show "sharp img x \<noteq> None"
      by (auto simp: io_bind_def downscaleImage_def split: option.splits)
  qed
  show "\<forall>img \<in> set images. \<forall>sz \<in> set sizes. sharp img sz \<noteq> None"
    using _ run
  proof (rule io_map_success_all [where P = "\<lambda>img. \<forall>sz \<in> set sizes. sharp img sz \<noteq> None"])
    fix x fsa ya fsb
    assume "?inner x fsa = (Inr ya, fsb)"
    then show "\<forall>sz \<in> set sizes. sharp x sz \<noteq> None" by (rule inner_all)
  qed
qed

lemma cache_name_inj:
  assumes w1: "0 \<le> w1" "w1 < 10 ^ 21" "is_double w1"
    and w2: "0 \<le> w2" "w2 < 10 ^ 21" "is_double w2"
    and eq: "cache_name (JNumber w1) n1 = cache_name (JNumber w2) n2"
  shows "w1 = w2 \<and> n1 = n2"
proof -
  let ?t = "takeWhile (\<lambda>c. c \<noteq> CHR ''-'')"
  from eq have e: "number_to_string w1 @ CHR ''-'' # (n1 @ ''.jpg'')
                 = number_to_string w2 @ CHR ''-'' # (n2 @ ''.jpg'')"
    by (simp add: cache_name_def)
  then have "?t (number_to_string w1 @ CHR ''-'' # (n1 @ ''.jpg''))
           = ?t (number_to_string w2 @ CHR ''-'' # (n2 @ ''.jpg''))" by (rule arg_cong)
  then have s: "number_to_string w1 = number_to_string w2"
    by (simp only: parseInt_number_to_string(2) [OF w1] parseInt_number_to_string(2) [OF w2])
  then have "parseInt (number_to_string w1) = parseInt (number_to_string w2)" by simp
  then have "w1 = w2"
    by (simp only: parseInt_number_to_string(1) [OF w1] parseInt_number_to_string(1) [OF w2]) simp
  moreover from e s have "n1 = n2" by simp
  ultimately show ?thesis by simp
qed

text \<open>
  C6. After a successful populate of \<open>m\<close> images at \<open>k\<close> sizes the cache root holds at
  most \<open>m * k\<close> entries. It holds exactly \<open>m * k\<close> when the images are distinct, the sizes
  are distinct positive integers below \<open>10^21\<close>, no two images give the same bytes at the
  same size, and the digest does not collide on the bytes sharp returned.
\<close>

theorem cacheImages_entry_count:
  assumes ok: "cacheImages sharp sha256_hex images cachePath sizes fs = (Inr (), fs')"
  shows "\<exists>es. lookup fs' cachePath = Inr (Dir es)
           \<and> length es \<le> length images * length sizes
           \<and> (distinct images \<and> distinct sizes
                \<and> (\<forall>sz \<in> set sizes. \<exists>w. sz = JNumber w \<and> 0 < w \<and> w < 10 ^ 21 \<and> is_double w)
                \<and> (\<forall>sz \<in> set sizes. \<forall>i \<in> set images. \<forall>j \<in> set images.
                      i \<noteq> j \<longrightarrow> sharp i sz \<noteq> sharp j sz)
                \<and> inj_on sha256_hex {bs. \<exists>i \<in> set images. \<exists>sz \<in> set sizes. sharp i sz = Some bs}
              \<longrightarrow> length es = length images * length sizes)"
proof -
  let ?nm = "\<lambda>(img, sz). cache_name sz (sha256_hex (the (sharp img sz)))"
  let ?P = "set images \<times> set sizes"
  from cacheImages_success_names(1) [OF ok] obtain es
    where es: "lookup fs' cachePath = Inr (Dir es)" and d: "distinct (map fst es)"
      and names: "fst ` set es = (\<Union>img \<in> set images. \<Union>sz \<in> set sizes.
                                {cache_name sz (sha256_hex (the (sharp img sz)))})"
    by blast
  have all: "\<forall>img \<in> set images. \<forall>sz \<in> set sizes. sharp img sz \<noteq> None"
    by (rule cacheImages_success_names(2) [OF ok])
  have img: "fst ` set es = ?nm ` ?P" using names by auto
  have "length es = length (map fst es)" by simp
  also have "\<dots> = card (set (map fst es))" using d by (simp only: distinct_card)
  also have "\<dots> = card (?nm ` ?P)" using img by simp
  finally have len: "length es = card (?nm ` ?P)" .
  have cP: "card ?P \<le> length images * length sizes"
    by (simp add: card_cartesian_product mult_le_mono card_length)
  have "card (?nm ` ?P) \<le> card ?P" by (intro card_image_le) simp
  with len cP have le: "length es \<le> length images * length sizes" by linarith
  have exact: "length es = length images * length sizes"
    if di: "distinct images" and ds: "distinct sizes"
      and num: "\<forall>sz \<in> set sizes. \<exists>w. sz = JNumber w \<and> 0 < w \<and> w < 10 ^ 21 \<and> is_double w"
      and diff: "\<forall>sz \<in> set sizes. \<forall>i \<in> set images. \<forall>j \<in> set images. i \<noteq> j \<longrightarrow> sharp i sz \<noteq> sharp j sz"
      and inj: "inj_on sha256_hex {bs. \<exists>i \<in> set images. \<exists>sz \<in> set sizes. sharp i sz = Some bs}"
  proof -
    have "inj_on ?nm ?P"
    proof (rule inj_onI)
      fix a b assume a: "a \<in> ?P" and b: "b \<in> ?P" and eq: "?nm a = ?nm b"
      obtain i1 s1 where a': "a = (i1, s1)" by (cases a)
      obtain i2 s2 where b': "b = (i2, s2)" by (cases b)
      from a a' have i1: "i1 \<in> set images" and s1: "s1 \<in> set sizes" by simp_all
      from b b' have i2: "i2 \<in> set images" and s2: "s2 \<in> set sizes" by simp_all
      from num s1 obtain w1 where w1: "s1 = JNumber w1" "0 \<le> w1" "w1 < 10 ^ 21" "is_double w1"
        by force
      from num s2 obtain w2 where w2: "s2 = JNumber w2" "0 \<le> w2" "w2 < 10 ^ 21" "is_double w2"
        by force
      from all i1 s1 obtain b1 where b1: "sharp i1 s1 = Some b1" by auto
      from all i2 s2 obtain b2 where b2: "sharp i2 s2 = Some b2" by auto
      from eq a' b' w1(1) w2(1) b1 b2
      have "cache_name (JNumber w1) (sha256_hex b1) = cache_name (JNumber w2) (sha256_hex b2)"
        by simp
      from cache_name_inj [OF w1(2-4) w2(2-4) this]
      have ww: "w1 = w2" and hh: "sha256_hex b1 = sha256_hex b2" by simp_all
      have "b1 \<in> {bs. \<exists>i \<in> set images. \<exists>sz \<in> set sizes. sharp i sz = Some bs}"
        using i1 s1 b1 by blast
      moreover have "b2 \<in> {bs. \<exists>i \<in> set images. \<exists>sz \<in> set sizes. sharp i sz = Some bs}"
        using i2 s2 b2 by blast
      ultimately have bb: "b1 = b2" using inj hh by (simp add: inj_on_def)
      from ww w1(1) w2(1) have ss: "s1 = s2" by simp
      with b1 b2 bb have "sharp i1 s1 = sharp i2 s1" by simp
      with diff s1 i1 i2 have "i1 = i2" by blast
      with ss a' b' show "a = b" by simp
    qed
    then have "card (?nm ` ?P) = card ?P" by (rule card_image)
    also have "\<dots> = length images * length sizes"
      using di ds by (simp add: card_cartesian_product distinct_card)
    finally show ?thesis using len by simp
  qed
  from es le exact show ?thesis by blast
qed

theorem cacheImages_entry_count_witness:
  "cacheImages (\<lambda>img sz. Some (last img)) (\<lambda>bs. bs)
      [[''data'', ''a'', ''i''], [''data'', ''b'', ''j'']] [''cache''] [JNumber 100, JNumber 200] None
   = (Inr (), Some (Dir [(''cache'', Dir
        [(''100-i.jpg'', File ''i''), (''200-i.jpg'', File ''i''),
         (''100-j.jpg'', File ''j''), (''200-j.jpg'', File ''j'')])]))
   \<and> (\<exists>es. lookup (Some (Dir [(''cache'', Dir
        [(''100-i.jpg'', File ''i''), (''200-i.jpg'', File ''i''),
         (''100-j.jpg'', File ''j''), (''200-j.jpg'', File ''j'')])])) [''cache''] = Inr (Dir es)
        \<and> length es = 4)"
proof -
  let ?sharp = "\<lambda>(img :: path) (sz :: json). Some (last img)"
  let ?images = "[[''data'', ''a'', ''i''], [''data'', ''b'', ''j'']]"
  let ?sizes = "[JNumber 100, JNumber 200]"
  let ?fs' = "Some (Dir [(''cache'', Dir
        [(''100-i.jpg'', File ''i''), (''200-i.jpg'', File ''i''),
         (''100-j.jpg'', File ''j''), (''200-j.jpg'', File ''j'')])])"
  have run: "cacheImages ?sharp (\<lambda>bs. bs) ?images [''cache''] ?sizes None = (Inr (), ?fs')"
    by (simp add: cacheImages_def io_eval number_to_string_100 number_to_string_200)
  have h: "distinct ?images \<and> distinct ?sizes
       \<and> (\<forall>sz \<in> set ?sizes. \<exists>w. sz = JNumber w \<and> 0 < w \<and> w < 10 ^ 21 \<and> is_double w)
       \<and> (\<forall>sz \<in> set ?sizes. \<forall>i \<in> set ?images. \<forall>j \<in> set ?images.
              i \<noteq> j \<longrightarrow> ?sharp i sz \<noteq> ?sharp j sz)
       \<and> inj_on (\<lambda>bs :: bytes. bs) {bs. \<exists>i \<in> set ?images. \<exists>sz \<in> set ?sizes. ?sharp i sz = Some bs}"
    using is_double_100 is_double_200 by (simp add: inj_on_def)
  from cacheImages_entry_count [OF run] h
  have "\<exists>es. lookup ?fs' [''cache''] = Inr (Dir es) \<and> length es = length ?images * length ?sizes"
    by blast
  moreover have "length ?images * length ?sizes = 4" by simp
  ultimately have "\<exists>es. lookup ?fs' [''cache''] = Inr (Dir es) \<and> length es = 4"
    by (simp only:)
  with run show ?thesis by blast
qed

subsection \<open>Aggregation by size\<close>

lemma first_seen_snoc:
  "first_seen (xs @ [x]) = (if x \<in> set xs then first_seen xs else first_seen xs @ [x])"
proof (induction xs rule: first_seen.induct)
  case 1
  then show ?case by simp
next
  case (2 y ys)
  then show ?case by (cases "x = y") auto
qed

lemma set_first_seen: "set (first_seen xs) = set xs"
  by (induction xs rule: first_seen.induct) auto

lemma distinct_first_seen: "distinct (first_seen xs)"
  by (induction xs rule: first_seen.induct) (auto simp: set_first_seen)

lemma map_of_keys: "map_of (map (\<lambda>k. (k, g k)) xs) k = (if k \<in> set xs then Some (g k) else None)"
  by (induction xs) auto

lemma assoc_set_keys:
  "distinct xs \<Longrightarrow>
   assoc_set k0 v (map (\<lambda>k. (k, g k)) xs)
   = (if k0 \<in> set xs then map (\<lambda>k. (k, if k = k0 then v else g k)) xs
      else map (\<lambda>k. (k, g k)) xs @ [(k0, v)])"
  by (induction xs) auto

lemma grouped_results:
  "foldl (\<lambda>m r. assoc_set (rsize r)
              ((case map_of m (rsize r) of None \<Rightarrow> [] | Some vals \<Rightarrow> vals) @ [score r]) m) [] results
   = map (\<lambda>k. (k, map score [r \<leftarrow> results. rsize r = k])) (first_seen (map rsize results))"
proof (induction results rule: rev_induct)
  case Nil
  then show ?case by simp
next
  case (snoc r rs)
  let ?F = "first_seen (map rsize rs)"
  let ?g = "\<lambda>k. map score [r \<leftarrow> rs. rsize r = k]"
  show ?case
  proof (cases "rsize r \<in> set ?F")
    case True
    then have "rsize r \<in> rsize ` set rs" by (simp add: set_first_seen)
    with True snoc show ?thesis
      by (simp add: map_of_keys assoc_set_keys distinct_first_seen first_seen_snoc)
  next
    case False
    then have out: "rsize r \<notin> rsize ` set rs" by (simp add: set_first_seen)
    then have empty: "[r' \<leftarrow> rs. rsize r' = rsize r] = []"
      by (force simp: filter_empty_conv image_iff)
    have "map (\<lambda>k. (k, ?g k)) ?F = map (\<lambda>k. (k, map score [r' \<leftarrow> rs @ [r]. rsize r' = k])) ?F"
      using False by (intro map_cong) auto
    with False out empty snoc show ?thesis
      by (simp add: map_of_keys assoc_set_keys distinct_first_seen first_seen_snoc)
  qed
qed

lemma foldl_add_sum_list: "foldl (+) a xs = a + sum_list (xs :: real list)"
  by (induction xs arbitrary: a) (simp_all add: add.assoc)

text \<open>
  C2. The labels of the chart are the distinct sizes of the results in the order in which
  each first occurs, each once; the data series gives, for each of them, the mean of the
  scores of all results of that size: their sum, added up in the order of the results
  from the initial value, divided by their number. With exact real arithmetic this is the
  arithmetic mean.
\<close>

theorem createChart_groups_by_size:
  "labels (createChart add zero divide_by results) = first_seen (map rsize results)
   \<and> distinct (labels (createChart add zero divide_by results))
   \<and> set (labels (createChart add zero divide_by results)) = rsize ` set results
   \<and> data (createChart add zero divide_by results)
       = map (\<lambda>k. mean add zero divide_by (map score [r \<leftarrow> results. rsize r = k]))
           (first_seen (map rsize results))
   \<and> data (createChart (+) 0 (\<lambda>s n. s / real n) results')
       = map (\<lambda>k. sum_list (map score [r \<leftarrow> results'. rsize r = k])
                    / real (length [r \<leftarrow> results'. rsize r = k]))
           (first_seen (map rsize results'))"
  by (simp add: createChart_def grouped_results distinct_first_seen set_first_seen mean_def
        foldl_add_sum_list comp_def)

subsection \<open>The argument block\<close>

lemma parse_arguments_rejects_iff:
  "(\<exists>e. fst (parse_arguments resolve JSON_parse nan argv fs) = Inl e)
   \<longleftrightarrow> (length argv < 4
        \<or> absent fs (resolve (argv ! 2))
        \<or> (case JSON_parse (argv ! 3) of
              None \<Rightarrow> True
            | Some (JArray sizes) \<Rightarrow> list_ex (isNaN nan) sizes
            | Some _ \<Rightarrow> True))"
  by (auto simp: parse_arguments_def io_throw_def io_bind_def io_return_def access_def absent_def
             Let_def
           split: option.splits json.splits sum.splits)

lemma numbers_are_not_NaN:
  "is_array_of_numbers (JArray sizes) \<Longrightarrow> \<not> list_ex (isNaN nan) sizes"
  by (induction sizes) (auto split: json.splits)

text \<open>
  C8 fails on the code. The sizes argument \<^verbatim>\<open>[null]\<close> is an array, and \<^verbatim>\<open>isNaN(null)\<close>
  is false, so the argument block accepts it although it is not an array of numbers; the
  pipeline starts, and on an empty test-data directory the run ends with exit code 0.
\<close>

theorem main_accepts_null_size:
  "\<not> is_array_of_numbers (JArray [JNull])
   \<and> parse_arguments (\<lambda>s. [s]) (\<lambda>s. if s = ''[null]'' then Some (JArray [JNull]) else None)
        (\<lambda>s. True) [''node'', ''frqt.js'', ''data'', ''[null]'']
        (Some (Dir [(''data'', Dir [])]))
      = (Inr ([''data''], [JNull]), Some (Dir [(''data'', Dir [])]))
   \<and> exit_code (fst (main (\<lambda>s. [s]) (\<lambda>s. if s = ''[null]'' then Some (JArray [JNull]) else None)
        (\<lambda>s. True) (\<lambda>a b. (0::real)) (\<lambda>img sz. None) (\<lambda>bs. bs) (+) 0 (\<lambda>s n. s / real n)
        [''cache''] [''node'', ''frqt.js'', ''data'', ''[null]'']
        (Some (Dir [(''data'', Dir [])])))) = 0"
  by (simp add: main_def pipeline_def parse_arguments_def initImages_def cacheImages_def
        runAllComparisons_def createChart_def alloc_def io_eval)

end
